theory Spec2Isabelle
  imports Main "HOL-Library.Word"
begin

section \<open>The UDP event server (xbmc/network/EventServer.cpp)\<close>

text \<open>
  A shallow embedding of \<^verbatim>\<open>CEventServer\<close>. The server object is a record of its member
  variables; every member function is a function from the state before the call to the state
  after it. What the functions do to the outside world (log lines, operations on the
  critical section, calls into collaborators, deallocations) is appended, in program order,
  to a history kept next to the members.

  Machine types: \<^verbatim>\<open>int\<close> and \<^verbatim>\<open>unsigned int\<close> are 32-bit words (an \<^verbatim>\<open>int\<close> is read
  with \<open>sint\<close>, the cast to \<^verbatim>\<open>unsigned int\<close> keeps the bits), \<^verbatim>\<open>unsigned long\<close>, the key
  type of \<^verbatim>\<open>m_clients\<close>, is a 64-bit word.
\<close>

type_synonym c_int = "32 word"
type_synonym c_uint = "32 word"
type_synonym c_ulong = "64 word"

subsection \<open>Collaborators that the server only calls\<close>

text \<open>
  Modelled from the spec: \<^verbatim>\<open>CAddress\<close> (Socket.h is not part of the sources). The sender
  address of a datagram; \<^verbatim>\<open>ULong()\<close> is the address-derived identity of section 3, a
  function of the address alone.
\<close>

record CAddress =
  s_addr :: "32 word"
  sin_port :: "16 word"

definition ULong :: "CAddress \<Rightarrow> c_ulong" where
  "ULong addr = ucast (s_addr addr)"

text \<open>
  Modelled from the spec: \<^verbatim>\<open>CEventPacket\<close> (EventPacket.h is not part of the sources). A
  parsed view of one datagram: the validity verdict \<^verbatim>\<open>IsValid()\<close>, the embedded client
  token \<^verbatim>\<open>ClientToken()\<close> and the payload.
\<close>

record CEventPacket =
  IsValid :: bool
  ClientToken :: c_uint
  Payload :: "8 word list"

text \<open>
  Modelled from the spec: the action descriptor \<^verbatim>\<open>CEventAction\<close> and its kinds
  (EventClient.h is not part of the sources). Section 3 names two kinds the dispatcher
  recognises and leaves the list of kinds open; \<open>AT_OTHER\<close> stands for every other kind code.
\<close>

datatype ActionType = AT_EXEC_BUILTIN | AT_BUTTON | AT_OTHER nat

record CEventAction =
  actionName :: string
  actionType :: ActionType

text \<open>
  Modelled from the spec: \<^verbatim>\<open>CEventClient\<close> (EventClient.cpp is not part of the sources),
  the client session of sections 3 and 4.3: remote address, display name, last-activity
  timestamp, liveness window, the queue of unconsumed packets, the queue of derived
  actions, and the configuration last pushed into the session.
\<close>

record CEventClient =
  m_remoteAddr :: CAddress
  m_deviceName :: string
  m_lastPing :: int
  m_timeout :: int
  m_readyPackets :: "CEventPacket list"
  m_actionQueue :: "CEventAction list"
  m_settings :: nat

text \<open>
  What the host around the server supplies: the liveness window given to new sessions, the
  current input configuration, the decoder of packet payloads, and the answers of the
  action execution sink (\<^verbatim>\<open>CBuiltins::Execute\<close>, \<^verbatim>\<open>CActionTranslator::TranslateString\<close>,
  whether a GUI component exists, \<^verbatim>\<open>g_application.OnAction\<close>).
\<close>

record host =
  liveness_window :: int
  input_settings :: nat
  decode :: "CEventPacket \<Rightarrow> CEventAction list"
  builtin_Execute :: "string \<Rightarrow> c_int"
  TranslateString :: "string \<Rightarrow> c_uint"
  gui_present :: bool
  app_OnAction :: "c_uint \<Rightarrow> string \<Rightarrow> bool"

text \<open>
  Modelled from the spec: the operations of a session (section 4.3). A new session is
  bound to the sender address; \<open>AddPacket\<close> appends to the packet queue and updates the
  last-activity timestamp; \<open>Alive\<close> holds iff \<open>now - lastActivity < livenessWindow\<close>;
  \<open>ProcessEvents_client\<close> drains the packet queue, appending what each packet decodes to;
  \<open>GetNextAction\<close> pops the oldest pending action, or reports that there is none (the
  C++ function returns false and leaves its out-parameter alone); \<open>RefreshSettings\<close>
  pushes the current configuration into the session.
\<close>

definition new_CEventClient :: "host \<Rightarrow> int \<Rightarrow> CAddress \<Rightarrow> CEventClient" where
  "new_CEventClient h now addr =
     \<lparr>m_remoteAddr = addr, m_deviceName = [], m_lastPing = now,
      m_timeout = liveness_window h, m_readyPackets = [], m_actionQueue = [],
      m_settings = input_settings h\<rparr>"

definition AddPacket :: "int \<Rightarrow> CEventPacket \<Rightarrow> CEventClient \<Rightarrow> CEventClient" where
  "AddPacket now packet c =
     c\<lparr>m_readyPackets := m_readyPackets c @ [packet], m_lastPing := now\<rparr>"

definition Alive :: "int \<Rightarrow> CEventClient \<Rightarrow> bool" where
  "Alive now c = (now - m_lastPing c < m_timeout c)"

definition ProcessEvents_client :: "host \<Rightarrow> CEventClient \<Rightarrow> CEventClient" where
  "ProcessEvents_client h c =
     c\<lparr>m_actionQueue := m_actionQueue c @ concat (map (decode h) (m_readyPackets c)),
       m_readyPackets := []\<rparr>"

definition GetNextAction :: "CEventClient \<Rightarrow> (CEventAction \<times> CEventClient) option" where
  "GetNextAction c =
     (case m_actionQueue c of
        [] \<Rightarrow> None
      | a # rest \<Rightarrow> Some (a, c\<lparr>m_actionQueue := rest\<rparr>))"

definition RefreshSettings :: "host \<Rightarrow> CEventClient \<Rightarrow> CEventClient" where
  "RefreshSettings h c = c\<lparr>m_settings := input_settings h\<rparr>"

subsection \<open>The server object\<close>

datatype LogLevel = LOGDEBUG | LOGNOTICE | LOGWARNING | LOGERROR

text \<open>
  The history of effects. \<open>Enter\<close> and \<open>Leave\<close> are the acquisition and the release of
  \<^verbatim>\<open>m_critSection\<close> by a \<^verbatim>\<open>CSingleLock\<close>: its constructor enters, \<^verbatim>\<open>Leave()\<close> releases, and
  its destructor releases only if the lock is still owned.
\<close>

datatype event =
    Log LogLevel string
  | Enter
  | Leave
  | Delete_packet CEventPacket
  | Delete_client c_ulong
  | RefreshSettings_call c_ulong
  | ProcessEvents_call c_ulong
  | Builtins_Execute string
  | PlayActionSound c_uint string
  | Application_OnAction c_uint string
  | Thread_Create
  | Socket_Create
  | Socket_Close
  | Socket_delete
  | Buffer_malloc
  | Buffer_free
  | Socket_Bind bool c_int c_int
  | PublishService c_int
  | Listener_AddSocket

datatype CUDPSocket = UDPSocket
datatype PacketBuffer = Buffer

type_synonym clients = "(c_ulong \<times> CEventClient) list"

text \<open>
  \<^verbatim>\<open>m_clients\<close> is a \<^verbatim>\<open>std::map<unsigned long, CEventClient*>\<close>: its entries in ascending
  key order, which is the order in which an iterator walks them. Every \<^verbatim>\<open>CEventClient\<close> is
  allocated when its entry is made and deleted when its entry is erased, so an entry
  holds the session itself.
\<close>

record CEventServer =
  m_pSocket :: "CUDPSocket option"
  m_pPacketBuffer :: "PacketBuffer option"
  m_bStop :: bool
  m_bRunning :: bool
  m_bRefreshSettings :: bool
  m_iListenTimeout :: c_int
  m_iPort :: c_int
  m_iMaxClients :: c_int
  m_clients :: clients
  history :: "event list"

definition emit :: "event list \<Rightarrow> CEventServer \<Rightarrow> CEventServer" where
  "emit es s = s\<lparr>history := history s @ es\<rparr>"

text \<open>The effects of a call: what the state after it has recorded beyond the state before.\<close>

definition effects :: "CEventServer \<Rightarrow> CEventServer \<Rightarrow> event list" where
  "effects s s' = drop (length (history s)) (history s')"

subsection \<open>Operations of \<^verbatim>\<open>std::map\<close>\<close>

text \<open>\<^verbatim>\<open>m[k] = v\<close>: the entry is put at its place in key order, or replaces the one there.\<close>

fun map_assign :: "c_ulong \<Rightarrow> CEventClient \<Rightarrow> clients \<Rightarrow> clients" where
  "map_assign k v [] = [(k, v)]"
| "map_assign k v ((k', v') # rest) =
     (if k < k' then (k, v) # (k', v') # rest
      else if k = k' then (k, v) # rest
      else (k', v') # map_assign k v rest)"

text \<open>
  \<^verbatim>\<open>m[k]->f()\<close> on an entry that exists: the session at \<open>k\<close> is changed in place. (On a
  missing key the C++ expression would create a null entry and dereference it; the server
  reaches this expression only after it has made sure that the entry exists.)
\<close>

fun map_at :: "c_ulong \<Rightarrow> (CEventClient \<Rightarrow> CEventClient) \<Rightarrow> clients \<Rightarrow> clients" where
  "map_at k f [] = []"
| "map_at k f ((k', v') # rest) =
     (if k = k' then (k', f v') # rest else (k', v') # map_at k f rest)"

subsection \<open>\<^verbatim>\<open>CEventServer::ProcessPacket\<close>\<close>

text \<open>
  The routing token (lines 245 to 247): the packet's client token, or, when that is zero,
  the sender's address narrowed to \<^verbatim>\<open>unsigned int\<close>.
\<close>

definition routing_token :: "CAddress \<Rightarrow> CEventPacket \<Rightarrow> c_uint" where
  "routing_token addr packet =
     (if ClientToken packet = 0 then ucast (ULong addr) else ClientToken packet)"

text \<open>
  The two tests \<^verbatim>\<open>packet == NULL\<close> and \<^verbatim>\<open>client == NULL\<close> follow plain \<^verbatim>\<open>new\<close>
  expressions, which never yield a null pointer; their branches are unreachable and are
  not part of the model. The capacity test compares \<^verbatim>\<open>m_clients.size()\<close> with
  \<^verbatim>\<open>(unsigned int)m_iMaxClients\<close>, so the bound is the unsigned reading of the member.
\<close>

definition ProcessPacket ::
  "host \<Rightarrow> int \<Rightarrow> CAddress \<Rightarrow> CEventPacket \<Rightarrow> CEventServer \<Rightarrow> CEventServer" where
  "ProcessPacket h now addr packet s =
     (if \<not> IsValid packet then
        emit [Log LOGDEBUG ''ES: Received invalid packet'', Delete_packet packet] s
      else
        let clientToken = routing_token addr packet;
            key = (ucast clientToken :: c_ulong);
            s1 = emit [Enter] s
        in
          (case map_of (m_clients s1) key of
             None \<Rightarrow>
               if unat (m_iMaxClients s1) \<le> length (m_clients s1) then
                 emit [Log LOGWARNING
                         ''ES: Cannot accept any more clients, maximum client count reached'',
                       Delete_packet packet, Leave] s1
               else
                 emit [Leave]
                   (s1\<lparr>m_clients :=
                         map_at key (AddPacket now packet)
                           (map_assign key (new_CEventClient h now addr) (m_clients s1))\<rparr>)
           | Some client \<Rightarrow>
               emit [Leave]
                 (s1\<lparr>m_clients := map_at key (AddPacket now packet) (m_clients s1)\<rparr>)))"

subsection \<open>\<^verbatim>\<open>CEventServer::RefreshClients\<close>\<close>

text \<open>
  The iterator of the loop is the split of the entries into those it has passed and those
  ahead of it, the first of which it points to: \<^verbatim>\<open>begin()\<close> has passed nothing,
  \<^verbatim>\<open>end()\<close> has nothing ahead, \<^verbatim>\<open>++iter\<close> moves the first entry ahead to the end of
  the passed ones. After \<^verbatim>\<open>m_clients.erase(iter)\<close> the source continues from
  \<^verbatim>\<open>m_clients.begin()\<close>.
\<close>

function RefreshClients_loop ::
  "host \<Rightarrow> int \<Rightarrow> bool \<Rightarrow> clients \<Rightarrow> clients \<Rightarrow> event list \<Rightarrow> clients \<times> event list" where
  "RefreshClients_loop h now refresh passed [] ev = (passed, ev)"
| "RefreshClients_loop h now refresh passed ((k, c) # rest) ev =
     (if \<not> Alive now c then
        RefreshClients_loop h now refresh [] (passed @ rest)
          (ev @ [Log LOGNOTICE ''ES: Client %s from %s timed out'', Delete_client k])
      else if refresh then
        RefreshClients_loop h now refresh (passed @ [(k, RefreshSettings h c)]) rest
          (ev @ [RefreshSettings_call k])
      else
        RefreshClients_loop h now refresh (passed @ [(k, c)]) rest ev)"
  by pat_completeness auto
termination
  by (relation "measures [\<lambda>(h, now, refresh, passed, ahead, ev). length passed + length ahead,
                          \<lambda>(h, now, refresh, passed, ahead, ev). length ahead]") auto

definition RefreshClients :: "host \<Rightarrow> int \<Rightarrow> CEventServer \<Rightarrow> CEventServer" where
  "RefreshClients h now s =
     (let s1 = emit [Enter] s;
          (cs, ev) = RefreshClients_loop h now (m_bRefreshSettings s1) [] (m_clients s1) []
      in emit [Leave] (emit ev (s1\<lparr>m_clients := cs, m_bRefreshSettings := False\<rparr>)))"

subsection \<open>\<^verbatim>\<open>CEventServer::ProcessEvents\<close>\<close>

text \<open>
  The loop calls \<^verbatim>\<open>ProcessEvents()\<close> on every session, from \<^verbatim>\<open>begin()\<close> to \<^verbatim>\<open>end()\<close>; the
  history records each of these calls with the key of the session.
\<close>

definition ProcessEvents :: "host \<Rightarrow> CEventServer \<Rightarrow> CEventServer" where
  "ProcessEvents h s =
     (let s1 = emit [Enter] s
      in emit [Leave]
           (emit (map (\<lambda>(k, c). ProcessEvents_call k) (m_clients s1))
              (s1\<lparr>m_clients :=
                    map (\<lambda>(k, c). (k, ProcessEvents_client h c)) (m_clients s1)\<rparr>)))"

subsection \<open>\<^verbatim>\<open>CEventServer::ExecuteNextAction\<close>\<close>

text \<open>
  The scan of the \<^verbatim>\<open>while\<close> loop: the first session, in key order, whose
  \<^verbatim>\<open>GetNextAction\<close> succeeds, the action it hands out, and the entries after that call.
\<close>

fun next_action :: "clients \<Rightarrow> (CEventAction \<times> clients) option" where
  "next_action [] = None"
| "next_action ((k, c) # rest) =
     (case GetNextAction c of
        Some (a, c') \<Rightarrow> Some (a, (k, c') # rest)
      | None \<Rightarrow>
          (case next_action rest of
             Some (a, rest') \<Rightarrow> Some (a, (k, c) # rest')
           | None \<Rightarrow> None))"

text \<open>
  The \<^verbatim>\<open>switch\<close> after \<^verbatim>\<open>lock.Leave()\<close>. \<^verbatim>\<open>ret\<close> starts as true and the switch has no
  default case. The action handed to the GUI is built from the translated identifier and
  the action name (its two amounts are the constants 1.0 and 0.0).
\<close>

definition execute_action :: "host \<Rightarrow> CEventAction \<Rightarrow> bool \<times> event list" where
  "execute_action h a =
     (case actionType a of
        AT_EXEC_BUILTIN \<Rightarrow>
          (builtin_Execute h (actionName a) = 0, [Builtins_Execute (actionName a)])
      | AT_BUTTON \<Rightarrow>
          (let actionID = TranslateString h (actionName a)
           in (app_OnAction h actionID (actionName a),
               (if gui_present h then [PlayActionSound actionID (actionName a)] else [])
               @ [Application_OnAction actionID (actionName a)]))
      | AT_OTHER n \<Rightarrow> (True, []))"

definition ExecuteNextAction :: "host \<Rightarrow> CEventServer \<Rightarrow> bool \<times> CEventServer" where
  "ExecuteNextAction h s =
     (let s1 = emit [Enter] s
      in (case next_action (m_clients s1) of
            Some (actionEvent, cs) \<Rightarrow>
              (let s2 = emit [Leave] (s1\<lparr>m_clients := cs\<rparr>);
                   (ret, ev) = execute_action h actionEvent
               in (ret, emit ev s2))
          | None \<Rightarrow> (False, emit [Leave] s1)))"

subsection \<open>\<^verbatim>\<open>CEventServer::Cleanup\<close>\<close>

fun Cleanup_loop :: "clients \<Rightarrow> event list \<Rightarrow> clients \<times> event list" where
  "Cleanup_loop [] ev = ([], ev)"
| "Cleanup_loop ((k, c) # rest) ev = Cleanup_loop rest (ev @ [Delete_client k])"

definition Cleanup :: "CEventServer \<Rightarrow> CEventServer" where
  "Cleanup s =
     (let s1 = (if m_pSocket s \<noteq> None
                then emit [Socket_Close, Socket_delete] (s\<lparr>m_pSocket := None\<rparr>) else s);
          s2 = (if m_pPacketBuffer s1 \<noteq> None
                then emit [Buffer_free] (s1\<lparr>m_pPacketBuffer := None\<rparr>) else s1);
          s3 = emit [Enter] s2;
          (cs, ev) = Cleanup_loop (m_clients s3) []
      in emit [Leave] (emit ev (s3\<lparr>m_clients := cs\<rparr>)))"

subsection \<open>\<^verbatim>\<open>CEventServer::StartServer\<close>\<close>

text \<open>The settings the server reads (\<^verbatim>\<open>CSettings::SETTING_SERVICES_ES...\<close>).\<close>

record CSettings =
  ESPORT :: c_int
  ESMAXCLIENTS :: c_int
  ESPORTRANGE :: c_int
  ESALLINTERFACES :: bool

datatype failure = Assertion_failed

text \<open>
  \<open>ndebug\<close> tells whether the build compiles \<^verbatim>\<open>assert\<close> away. Where it does not, a port
  outside 1 to 65535 aborts the process at line 77.
\<close>

definition StartServer :: "bool \<Rightarrow> CSettings \<Rightarrow> CEventServer \<Rightarrow> failure + CEventServer" where
  "StartServer ndebug settings s =
     (let s1 = emit [Enter] s
      in if m_bRunning s1 then Inr (emit [Leave] s1)
         else
           let s2 = s1\<lparr>m_iPort := ESPORT settings\<rparr>
           in if \<not> ndebug \<and> \<not> (sint (m_iPort s2) \<le> 65535 \<and> sint (m_iPort s2) \<ge> 1)
              then Inl Assertion_failed
              else
                let s3 = s2\<lparr>m_iMaxClients := ESMAXCLIENTS settings\<rparr>;
                    s4 = (if sint (m_iMaxClients s3) < 0
                          then (emit [Log LOGERROR
                                  ''ES: Invalid maximum number of clients specified %d''] s3)
                                 \<lparr>m_iMaxClients := 20\<rparr>
                          else s3)
                in Inr (emit [Thread_Create, Leave] s4))"

subsection \<open>\<^verbatim>\<open>CEventServer::Run\<close>\<close>

text \<open>
  What one pass of the receive loop meets: \<^verbatim>\<open>Listen\<close> times out, \<^verbatim>\<open>Read\<close> returns a
  negative size, \<^verbatim>\<open>Read\<close> delivers a datagram (given by the sender address and the packet
  that \<^verbatim>\<open>ProcessPacket\<close> parses from the buffer), or one of the two throws. A pass also
  has the clock readings at which the packet is routed and at which the sweep runs, and
  whether another thread has set \<^verbatim>\<open>m_bStop\<close> by the time the loop condition is tested
  again.
\<close>

datatype received =
    Listen_timeout
  | Read_failed
  | Datagram CAddress CEventPacket
  | Exception_thrown

record pass =
  rx :: received
  t_route :: int
  t_sweep :: int
  stop_requested :: bool

text \<open>The body of the loop; the boolean tells whether the loop goes on (no \<^verbatim>\<open>break\<close>).\<close>

definition Run_pass :: "host \<Rightarrow> pass \<Rightarrow> CEventServer \<Rightarrow> bool \<times> CEventServer" where
  "Run_pass h x s =
     (case rx x of
        Exception_thrown \<Rightarrow>
          (False, emit [Log LOGERROR ''ES: Exception caught while listening for socket''] s)
      | Listen_timeout \<Rightarrow> (True, RefreshClients h (t_sweep x) (ProcessEvents h s))
      | Read_failed \<Rightarrow> (True, RefreshClients h (t_sweep x) (ProcessEvents h s))
      | Datagram addr packet \<Rightarrow>
          (True, RefreshClients h (t_sweep x)
                   (ProcessEvents h (ProcessPacket h (t_route x) addr packet s))))"

text \<open>
  The loop over the passes that the run meets. \<open>None\<close>: the passes are used up and
  \<^verbatim>\<open>m_bStop\<close> is still false, so the loop has not ended.
\<close>

fun Run_loop :: "host \<Rightarrow> pass list \<Rightarrow> CEventServer \<Rightarrow> CEventServer option" where
  "Run_loop h [] s = (if m_bStop s then Some s else None)"
| "Run_loop h (x # xs) s =
     (if m_bStop s then Some s
      else
        (case Run_pass h x s of
           (False, s') \<Rightarrow> Some s'
         | (True, s') \<Rightarrow> Run_loop h xs (s'\<lparr>m_bStop := m_bStop s' \<or> stop_requested x\<rparr>)))"

text \<open>
  What the start of a run meets: whether \<^verbatim>\<open>CreateUDPSocket\<close> yields a socket, whether
  \<^verbatim>\<open>malloc\<close> yields a buffer, and the answer of \<^verbatim>\<open>Bind(localOnly, port, range)\<close>.
\<close>

record startup =
  CreateUDPSocket :: "CUDPSocket option"
  malloc :: "PacketBuffer option"
  Bind :: "bool \<Rightarrow> c_int \<Rightarrow> c_int \<Rightarrow> bool"

text \<open>
  Lines 142 to 189, up to the loop. The boolean tells whether the loop is reached; where it
  is false, \<^verbatim>\<open>Run\<close> has returned from one of its three early \<^verbatim>\<open>return\<close> statements.
\<close>

definition Run_startup :: "CSettings \<Rightarrow> startup \<Rightarrow> CEventServer \<Rightarrow> bool \<times> CEventServer" where
  "Run_startup settings env s =
     (let s0 = Cleanup (emit [Log LOGNOTICE ''ES: Starting UDP Event server on port %d''] s);
          s1 = emit [Socket_Create] (s0\<lparr>m_pSocket := CreateUDPSocket env\<rparr>)
      in if m_pSocket s1 = None then
           (False, emit [Log LOGERROR ''ES: Could not create socket, aborting!''] s1)
         else
           let s2 = emit [Buffer_malloc] (s1\<lparr>m_pPacketBuffer := malloc env\<rparr>)
           in if m_pPacketBuffer s2 = None then
                (False, emit [Log LOGERROR
                                ''ES: Out of memory, could not allocate packet buffer''] s2)
              else
                let port_range0 = ESPORTRANGE settings;
                    invalid = (sint port_range0 < 1 \<or> sint port_range0 > 100);
                    s3 = (if invalid
                          then emit [Log LOGERROR
                                 ''ES: Invalid port range specified %d, defaulting to 10''] s2
                          else s2);
                    port_range = (if invalid then 10 else port_range0);
                    localOnly = (\<not> ESALLINTERFACES settings);
                    s4 = emit [Socket_Bind localOnly (m_iPort s3) port_range] s3
                in if \<not> Bind env localOnly (m_iPort s4) port_range then
                     (False, emit [Log LOGERROR ''ES: Could not listen on port %d''] s4)
                   else
                     let s5 = emit [PublishService (m_iPort s4), Listener_AddSocket] s4
                     in (True, s5\<lparr>m_bRunning := True\<rparr>))"

text \<open>
  The whole of \<^verbatim>\<open>Run\<close>: the start, the loop and, after the loop, lines 221 to 223.
\<close>

definition Run ::
  "host \<Rightarrow> CSettings \<Rightarrow> startup \<Rightarrow> pass list \<Rightarrow> CEventServer \<Rightarrow> CEventServer option" where
  "Run h settings env passes s =
     (case Run_startup settings env s of
        (False, s') \<Rightarrow> Some s'
      | (True, s6) \<Rightarrow>
          (case Run_loop h passes s6 of
             None \<Rightarrow> None
           | Some s7 \<Rightarrow>
               Some (Cleanup
                       ((emit [Log LOGNOTICE ''ES: UDP Event server stopped''] s7)
                          \<lparr>m_bRunning := False\<rparr>))))"

section \<open>Notions used to state the properties\<close>

text \<open>
  No call into the host happens while \<^verbatim>\<open>m_critSection\<close> is held: the history is read
  from left to right, \<open>held\<close> telling whether the lock is owned at that point.
\<close>

fun external_unlocked :: "bool \<Rightarrow> event list \<Rightarrow> bool" where
  "external_unlocked held [] = True"
| "external_unlocked held (Enter # es) = external_unlocked True es"
| "external_unlocked held (Leave # es) = external_unlocked False es"
| "external_unlocked held (Builtins_Execute name # es) =
     (\<not> held \<and> external_unlocked held es)"
| "external_unlocked held (PlayActionSound actionID name # es) =
     (\<not> held \<and> external_unlocked held es)"
| "external_unlocked held (Application_OnAction actionID name # es) =
     (\<not> held \<and> external_unlocked held es)"
| "external_unlocked held (e # es) = external_unlocked held es"

text \<open>The two calls that execute an action.\<close>

fun is_execution :: "event \<Rightarrow> bool" where
  "is_execution (Builtins_Execute name) = True"
| "is_execution (Application_OnAction actionID name) = True"
| "is_execution e = False"

text \<open>All pending actions, in the order in which \<^verbatim>\<open>ExecuteNextAction\<close> would hand them out.\<close>

definition pending :: "clients \<Rightarrow> CEventAction list" where
  "pending cs = concat (map (\<lambda>(k, c). m_actionQueue c) cs)"

text \<open>
  For a sweep at clock reading \<open>now\<close>: the entries that are alive, the keys of those that
  are not, and, for a key, how many dead entries follow its entry in key order.
\<close>

definition live :: "int \<Rightarrow> clients \<Rightarrow> clients" where
  "live now cs = filter (\<lambda>(k, c). Alive now c) cs"

definition dead_keys :: "int \<Rightarrow> clients \<Rightarrow> c_ulong list" where
  "dead_keys now cs = map fst (filter (\<lambda>(k, c). \<not> Alive now c) cs)"

fun evicted_after :: "int \<Rightarrow> c_ulong \<Rightarrow> clients \<Rightarrow> nat" where
  "evicted_after now k [] = 0"
| "evicted_after now k ((k', c) # rest) =
     (if k' = k then length (dead_keys now rest) else evicted_after now k rest)"

definition refreshed :: "host \<Rightarrow> bool \<Rightarrow> clients \<Rightarrow> clients" where
  "refreshed h refresh cs =
     (if refresh then map (\<lambda>(k, c). (k, RefreshSettings h c)) cs else cs)"

text \<open>The keys of the sessions that a history deletes, in order.\<close>

definition deleted :: "event list \<Rightarrow> c_ulong list" where
  "deleted ev = concat (map (\<lambda>e. case e of Delete_client k \<Rightarrow> [k] | _ \<Rightarrow> []) ev)"

definition Cleanup_effects :: "CEventServer \<Rightarrow> event list" where
  "Cleanup_effects s =
     (if m_pSocket s \<noteq> None then [Socket_Close, Socket_delete] else []) @
     (if m_pPacketBuffer s \<noteq> None then [Buffer_free] else []) @
     [Enter] @ map (\<lambda>(k, c). Delete_client k) (m_clients s) @ [Leave]"

text \<open>
  The state that the conversion phase of a pass starts from: the packet, if one arrived,
  has been routed.
\<close>

definition routed_before :: "host \<Rightarrow> pass \<Rightarrow> CEventServer \<Rightarrow> CEventServer" where
  "routed_before h x s =
     (case rx x of
        Datagram addr packet \<Rightarrow> ProcessPacket h (t_route x) addr packet s
      | _ \<Rightarrow> s)"

text \<open>The entries of a \<^verbatim>\<open>std::map\<close> are in strictly ascending key order.\<close>

definition ascending :: "clients \<Rightarrow> bool" where
  "ascending cs = sorted_wrt (<) (map fst cs)"

text \<open>
  A packet is admitted (lines 254 to 256) if there is a session at its key or room for a
  new one. \<open>queue_at\<close> is the packet queue of the session at a key, empty if there is none.
\<close>

definition admitted :: "CAddress \<Rightarrow> CEventPacket \<Rightarrow> CEventServer \<Rightarrow> bool" where
  "admitted addr packet s =
     (map_of (m_clients s) (ucast (routing_token addr packet)) \<noteq> None \<or>
      length (m_clients s) < unat (m_iMaxClients s))"

definition queue_at :: "c_ulong \<Rightarrow> CEventServer \<Rightarrow> CEventPacket list" where
  "queue_at k s = (case map_of (m_clients s) k of None \<Rightarrow> [] | Some c \<Rightarrow> m_readyPackets c)"

section \<open>Example hosts, packets and server states\<close>

definition example_host :: host where
  "example_host =
     \<lparr>liveness_window = 60, input_settings = 1,
      decode = (\<lambda>p. [\<lparr>actionName = ''Up'', actionType = AT_BUTTON\<rparr>]),
      builtin_Execute = (\<lambda>name. if name = ''Quit'' then 0 else -1),
      TranslateString = (\<lambda>name. 3),
      gui_present = True,
      app_OnAction = (\<lambda>actionID name. name = ''Up'')\<rparr>"

definition addr_5 :: CAddress where
  "addr_5 = \<lparr>s_addr = 0x0A000005, sin_port = 9777\<rparr>"

definition packet_token :: "c_uint \<Rightarrow> CEventPacket" where
  "packet_token t = \<lparr>IsValid = True, ClientToken = t, Payload = [1]\<rparr>"

definition packet_invalid :: CEventPacket where
  "packet_invalid = \<lparr>IsValid = False, ClientToken = 7, Payload = []\<rparr>"

definition action_named :: "string \<Rightarrow> ActionType \<Rightarrow> CEventAction" where
  "action_named name kind = \<lparr>actionName = name, actionType = kind\<rparr>"

definition session :: "int \<Rightarrow> CEventAction list \<Rightarrow> CEventClient" where
  "session t acts =
     \<lparr>m_remoteAddr = addr_5, m_deviceName = ''remote'', m_lastPing = t, m_timeout = 60,
      m_readyPackets = [], m_actionQueue = acts, m_settings = 0\<rparr>"

definition server_with :: "c_int \<Rightarrow> clients \<Rightarrow> CEventServer" where
  "server_with maxc cs =
     \<lparr>m_pSocket = Some UDPSocket, m_pPacketBuffer = Some Buffer, m_bStop = False,
      m_bRunning = True, m_bRefreshSettings = False, m_iListenTimeout = 1000,
      m_iPort = 9777, m_iMaxClients = maxc, m_clients = cs, history = []\<rparr>"

definition queued_example :: CEventServer where
  "queued_example =
     server_with 20
       [(1, session 0 []),
        (2, session 0 [action_named ''Reboot'' AT_EXEC_BUILTIN, action_named ''Up'' AT_BUTTON])]"

definition other_kind_example :: CEventServer where
  "other_kind_example =
     server_with 20 [(1, session 0 [action_named ''pointer'' (AT_OTHER 3),
                                    action_named ''Up'' AT_BUTTON])]"

definition sweep_example :: CEventServer where
  "sweep_example =
     (server_with 20 [(1, session 100 []), (2, session 0 [])])\<lparr>m_bRefreshSettings := True\<rparr>"

definition example_settings :: CSettings where
  "example_settings =
     \<lparr>ESPORT = 9777, ESMAXCLIENTS = -5, ESPORTRANGE = 0, ESALLINTERFACES = True\<rparr>"

text \<open>The server as its constructor and \<^verbatim>\<open>StartServer\<close> leave it, before the first run.\<close>

definition constructed :: CEventServer where
  "constructed =
     \<lparr>m_pSocket = None, m_pPacketBuffer = None, m_bStop = False, m_bRunning = False,
      m_bRefreshSettings = False, m_iListenTimeout = 1000, m_iPort = 9777,
      m_iMaxClients = 20, m_clients = [], history = []\<rparr>"

definition bind_refused :: startup where
  "bind_refused =
     \<lparr>CreateUDPSocket = Some UDPSocket, malloc = Some Buffer,
      Bind = (\<lambda>localOnly port range. False)\<rparr>"

definition bind_accepted :: startup where
  "bind_accepted =
     \<lparr>CreateUDPSocket = Some UDPSocket, malloc = Some Buffer,
      Bind = (\<lambda>localOnly port range. True)\<rparr>"

definition one_session :: CEventServer where
  "one_session = server_with 2 [(1, session 0 [])]"

definition datagram_pass :: pass where
  "datagram_pass =
     \<lparr>rx = Datagram addr_5 (packet_token 0), t_route = 100, t_sweep = 100,
      stop_requested = False\<rparr>"

definition malloc_fails :: startup where
  "malloc_fails =
     \<lparr>CreateUDPSocket = Some UDPSocket, malloc = None,
      Bind = (\<lambda>localOnly port range. True)\<rparr>"

definition packet_more :: "c_uint \<Rightarrow> CEventPacket" where
  "packet_more t = \<lparr>IsValid = True, ClientToken = t, Payload = [2]\<rparr>"

text \<open>A pass whose sweep runs 60 seconds after its packet was routed.\<close>

definition late_pass :: pass where
  "late_pass =
     \<lparr>rx = Datagram addr_5 (packet_token 0), t_route = 100, t_sweep = 160,
      stop_requested = False\<rparr>"

section \<open>Auxiliary facts\<close>

subsection \<open>Words\<close>

lemma ucast_32_64_inj: "(ucast (a::32 word) :: 64 word) = ucast b \<Longrightarrow> a = b"
proof -
  assume "(ucast a :: 64 word) = ucast b"
  then have "(ucast (ucast a :: 64 word) :: 32 word) = ucast (ucast b :: 64 word)" by simp
  then show "a = b" by (simp add: ucast_up_ucast_id is_up)
qed

lemma unat_of_sint: "0 \<le> sint (w::32 word) \<Longrightarrow> unat w = nat (sint w)"
proof -
  assume nonneg: "0 \<le> sint w"
  have "sint w < 2 ^ 31" using sint_lt[of w] by simp
  then have "sint w < 2 ^ 32" by simp
  with nonneg have "take_bit 32 (sint w) = sint w"
    by (simp add: take_bit_int_eq_self)
  then have "uint w = sint w" using uint_sint[of w] by simp
  then show ?thesis by (simp add: unat_eq_nat_uint)
qed

subsection \<open>The map and the history\<close>

lemma map_of_map_assign: "map_of (map_assign k v xs) = (map_of xs)(k \<mapsto> v)"
  by (induction xs) (auto simp: fun_eq_iff)

lemma map_of_map_at:
  "map_of (map_at k f xs) k' = (if k' = k then map_option f (map_of xs k) else map_of xs k')"
  by (induction xs) auto

lemma effects_emit [simp]: "effects s (emit es s) = es"
  by (simp add: effects_def emit_def)

lemma ProcessPacket_other_keys:
  "k \<noteq> ucast (routing_token addr packet) \<Longrightarrow>
   map_of (m_clients (ProcessPacket h now addr packet s)) k = map_of (m_clients s) k"
  by (simp add: ProcessPacket_def Let_def emit_def map_of_map_at map_of_map_assign
        split: option.splits)

subsection \<open>The scan for the next action\<close>

lemma next_action_None: "(next_action cs = None) = (pending cs = [])"
  by (induction cs) (auto simp: pending_def GetNextAction_def split: list.splits option.splits)

lemma next_action_Some:
  "next_action cs = Some (a, cs') \<Longrightarrow>
   pending cs = a # pending cs' \<and> map fst cs' = map fst cs"
  by (induction cs arbitrary: cs')
     (auto simp: pending_def GetNextAction_def split: list.splits option.splits)

lemma next_action_pending:
  "pending cs = a # rest \<Longrightarrow> \<exists>cs'. next_action cs = Some (a, cs') \<and> pending cs' = rest"
proof -
  assume p: "pending cs = a # rest"
  then have "next_action cs \<noteq> None" by (simp add: next_action_None)
  then obtain b cs' where n: "next_action cs = Some (b, cs')" by auto
  from next_action_Some [OF n] p show ?thesis using n by simp
qed

lemma external_unlocked_execute: "external_unlocked False (snd (execute_action h a))"
  by (cases "actionType a") (simp_all add: execute_action_def Let_def)

lemma execute_action_executions:
  "length (filter is_execution (snd (execute_action h a))) \<le> 1"
  by (cases "actionType a") (simp_all add: execute_action_def Let_def)

lemma effects_ExecuteNextAction:
  "effects s (snd (ExecuteNextAction h s)) =
     (case next_action (m_clients s) of
        None \<Rightarrow> [Enter, Leave]
      | Some (a, cs) \<Rightarrow> [Enter, Leave] @ snd (execute_action h a))"
  by (simp add: ExecuteNextAction_def Let_def emit_def effects_def
        split: option.splits prod.splits)

subsection \<open>\<^verbatim>\<open>Cleanup\<close> in closed form\<close>

lemma Cleanup_loop_eq:
  "Cleanup_loop cs ev = ([], ev @ map (\<lambda>(k, c). Delete_client k) cs)"
  by (induction cs arbitrary: ev) auto

lemma Cleanup_eq:
  "Cleanup s =
     s\<lparr>m_pSocket := None, m_pPacketBuffer := None, m_clients := [],
       history := history s @ Cleanup_effects s\<rparr>"
  by (cases s) (simp add: Cleanup_def Cleanup_effects_def Let_def emit_def Cleanup_loop_eq)

subsection \<open>The sweep\<close>

lemma Alive_RefreshSettings [simp]: "Alive now (RefreshSettings h c) = Alive now c"
  by (simp add: Alive_def RefreshSettings_def)

lemma RefreshSettings_idem [simp]: "RefreshSettings h (RefreshSettings h c) = RefreshSettings h c"
  by (simp add: RefreshSettings_def)

lemma live_append [simp]: "live now (xs @ ys) = live now xs @ live now ys"
  by (simp add: live_def)

lemma dead_keys_append [simp]: "dead_keys now (xs @ ys) = dead_keys now xs @ dead_keys now ys"
  by (simp add: dead_keys_def)

lemma deleted_append [simp]: "deleted (xs @ ys) = deleted xs @ deleted ys"
  by (simp add: deleted_def)

lemma live_all: "\<forall>(k, c) \<in> set cs. Alive now c \<Longrightarrow> live now cs = cs"
  by (induction cs) (auto simp: live_def)

lemma dead_keys_none: "\<forall>(k, c) \<in> set cs. Alive now c \<Longrightarrow> dead_keys now cs = []"
  by (induction cs) (auto simp: dead_keys_def)

lemma RefreshClients_loop_clients:
  "\<forall>(k, c) \<in> set passed. Alive now c \<and> (refresh \<longrightarrow> RefreshSettings h c = c) \<Longrightarrow>
   fst (RefreshClients_loop h now refresh passed ahead ev) =
     refreshed h refresh (live now (passed @ ahead))"
proof (induction h now refresh passed ahead ev rule: RefreshClients_loop.induct)
  case (1 h now refresh passed ev)
  then have "live now passed = passed" by (intro live_all) auto
  moreover from 1 have "refreshed h refresh passed = passed"
    by (auto simp: refreshed_def intro!: map_idI)
  ultimately show ?case by simp
next
  case (2 h now refresh passed k c rest ev)
  show ?case
  proof (cases "Alive now c")
    case False
    with 2 show ?thesis by (simp add: live_def)
  next
    case True
    with 2 show ?thesis
      by (cases refresh) (auto simp: live_def refreshed_def)
  qed
qed

lemma RefreshClients_loop_deleted:
  "\<forall>(k, c) \<in> set passed. Alive now c \<Longrightarrow>
   deleted (snd (RefreshClients_loop h now refresh passed ahead ev)) =
     deleted ev @ dead_keys now ahead"
proof (induction h now refresh passed ahead ev rule: RefreshClients_loop.induct)
  case (1 h now refresh passed ev)
  show ?case by (simp add: dead_keys_def)
next
  case (2 h now refresh passed k c rest ev)
  then have none: "dead_keys now passed = []" by (intro dead_keys_none) 
  show ?case
  proof (cases "Alive now c")
    case False
    with 2 none show ?thesis by (simp add: dead_keys_def deleted_def)
  next
    case True
    with 2 show ?thesis
      by (cases refresh) (auto simp: dead_keys_def deleted_def)
  qed
qed

lemma evicted_after_append_in:
  "k \<in> fst ` set xs \<Longrightarrow>
   evicted_after now k (xs @ ys) = evicted_after now k xs + length (dead_keys now ys)"
  by (induction xs) (auto simp: dead_keys_def rev_image_eqI)

lemma evicted_after_append_notin:
  "k \<notin> fst ` set xs \<Longrightarrow> evicted_after now k (xs @ ys) = evicted_after now k ys"
  by (induction xs) auto

lemma evicted_after_same_verdict:
  "Alive now c1 = Alive now c2 \<Longrightarrow>
   evicted_after now k (xs @ (k', c1) # ys) = evicted_after now k (xs @ (k', c2) # ys)"
  by (induction xs) (auto simp: dead_keys_def)

lemma live_key_not_dead:
  assumes "distinct (map fst cs)" and "k \<in> fst ` set (live now cs)"
    and "(k', c) \<in> set cs" and "\<not> Alive now c"
  shows "k \<noteq> k'"
proof
  assume "k = k'"
  from assms(2) obtain c0 where "(k, c0) \<in> set cs" and "Alive now c0"
    by (auto simp: live_def)
  with assms(1,3) \<open>k = k'\<close> have "c0 = c" by (metis eq_key_imp_eq_value)
  with \<open>Alive now c0\<close> assms(4) show False by simp
qed

lemma RefreshClients_loop_calls:
  "refresh \<Longrightarrow> distinct (map fst (passed @ ahead)) \<Longrightarrow>
   \<forall>(k', c) \<in> set passed. Alive now c \<Longrightarrow>
   k \<in> fst ` set (live now (passed @ ahead)) \<Longrightarrow>
   count_list (snd (RefreshClients_loop h now refresh passed ahead ev)) (RefreshSettings_call k) =
     count_list ev (RefreshSettings_call k) + evicted_after now k (passed @ ahead) +
     (if k \<in> fst ` set ahead then 1 else 0)"
proof (induction h now refresh passed ahead ev rule: RefreshClients_loop.induct)
  case (1 h now refresh passed ev)
  from 1(4) have kin: "k \<in> fst ` set passed" by (auto simp: live_def)
  have "dead_keys now passed = []" using 1(3) by (intro dead_keys_none)
  have "evicted_after now k passed = 0"
    using 1(3) kin
  proof (induction passed)
    case Nil then show ?case by simp
  next
    case (Cons a passed)
    then have "dead_keys now passed = []" by (intro dead_keys_none) auto
    with Cons show ?case by (cases a) auto
  qed
  then show ?case by simp
next
  case (2 h now refresh passed k' c rest ev)
  note dist = 2(5) and alive = 2(6) and klive = 2(7)
  show ?case
  proof (cases "Alive now c")
    case False
    have neq: "k \<noteq> k'"
      using live_key_not_dead [OF dist klive _ False, of k'] by simp
    have d': "distinct (map fst ([] @ passed @ rest))" using dist by simp
    have kl': "k \<in> fst ` set (live now ([] @ passed @ rest))"
      using klive False by (auto simp: live_def)
    have IH: "count_list (snd (RefreshClients_loop h now refresh [] (passed @ rest)
                 (ev @ [Log LOGNOTICE ''ES: Client %s from %s timed out'', Delete_client k'])))
               (RefreshSettings_call k) =
             count_list (ev @ [Log LOGNOTICE ''ES: Client %s from %s timed out'', Delete_client k'])
               (RefreshSettings_call k) +
             evicted_after now k ([] @ passed @ rest) +
             (if k \<in> fst ` set (passed @ rest) then 1 else 0)"
      using 2(1) [OF False 2(4) d' _ kl'] by simp
    have kin: "k \<in> fst ` set (passed @ rest)" using kl' by (auto simp: live_def)
    show ?thesis
    proof (cases "k \<in> fst ` set passed")
      case True
      then have "k \<notin> fst ` set rest" using dist by (auto simp: rev_image_eqI)
      with True neq False IH kin show ?thesis
        by (simp add: evicted_after_append_in dead_keys_def)
    next
      case notin: False
      with kin have "k \<in> fst ` set rest" by auto
      with notin neq False IH kin show ?thesis
        by (simp add: evicted_after_append_notin)
    qed
  next
    case True
    have d': "distinct (map fst ((passed @ [(k', RefreshSettings h c)]) @ rest))"
      using dist by simp
    have al': "\<forall>(k', c) \<in> set (passed @ [(k', RefreshSettings h c)]). Alive now c"
      using alive True by auto
    have kl': "k \<in> fst ` set (live now ((passed @ [(k', RefreshSettings h c)]) @ rest))"
      using klive True by (auto simp: live_def)
    have IH: "count_list (snd (RefreshClients_loop h now refresh
                 (passed @ [(k', RefreshSettings h c)]) rest (ev @ [RefreshSettings_call k'])))
               (RefreshSettings_call k) =
             count_list (ev @ [RefreshSettings_call k']) (RefreshSettings_call k) +
             evicted_after now k ((passed @ [(k', RefreshSettings h c)]) @ rest) +
             (if k \<in> fst ` set rest then 1 else 0)"
      using 2(2) [OF _ 2(4) 2(4) d' al' kl'] True by simp
    have same: "evicted_after now k ((passed @ [(k', RefreshSettings h c)]) @ rest) =
                evicted_after now k (passed @ (k', c) # rest)"
      using evicted_after_same_verdict [of now "RefreshSettings h c" c k passed k' rest] by simp
    show ?thesis
    proof (cases "k = k'")
      case keq: True
      then have "k \<notin> fst ` set rest" using dist by (auto simp: rev_image_eqI)
      with keq True 2(4) IH same show ?thesis by simp
    next
      case False
      with True 2(4) IH same show ?thesis by simp
    qed
  qed
qed

lemma history_RefreshClients:
  "effects s (RefreshClients h now s) =
     [Enter] @ snd (RefreshClients_loop h now (m_bRefreshSettings s) [] (m_clients s) []) @ [Leave]"
  by (simp add: RefreshClients_def Let_def emit_def effects_def split: prod.splits)

lemma m_clients_RefreshClients:
  "m_clients (RefreshClients h now s) =
     refreshed h (m_bRefreshSettings s) (live now (m_clients s))"
  using RefreshClients_loop_clients [of "[]" now "m_bRefreshSettings s" h "m_clients s" "[]"]
  by (simp add: RefreshClients_def Let_def emit_def case_prod_beta)

subsection \<open>One pass of the loop\<close>

lemma map_of_live:
  "map_of cs T = Some c \<Longrightarrow> Alive now c \<Longrightarrow> map_of (live now cs) T = Some c"
  by (induction cs) (auto simp: live_def split: if_splits)

lemma map_of_refreshed:
  "map_of (refreshed h refresh cs) T =
     map_option (\<lambda>c. if refresh then RefreshSettings h c else c) (map_of cs T)"
  by (induction cs) (auto simp: refreshed_def)

lemma map_of_ProcessEvents:
  "map_of (m_clients (ProcessEvents h s)) T =
     map_option (ProcessEvents_client h) (map_of (m_clients s) T)"
  by (simp add: ProcessEvents_def Let_def emit_def map_of_map)

lemma map_of_ProcessPacket_routed:
  assumes "IsValid packet"
    and "map_of (m_clients s) (ucast (routing_token addr packet)) \<noteq> None \<or>
         length (m_clients s) < unat (m_iMaxClients s)"
  shows "map_of (m_clients (ProcessPacket h now addr packet s))
           (ucast (routing_token addr packet)) =
         Some (AddPacket now packet
                 (case map_of (m_clients s) (ucast (routing_token addr packet)) of
                    None \<Rightarrow> new_CEventClient h now addr | Some c \<Rightarrow> c))"
  using assms
  by (cases "map_of (m_clients s) (ucast (routing_token addr packet))")
     (auto simp: ProcessPacket_def Let_def emit_def map_of_map_at map_of_map_assign)

subsection \<open>The order of the map is kept, and the count stays bounded\<close>

lemma ascending_distinct: "ascending cs \<Longrightarrow> distinct (map fst cs)"
  by (simp add: ascending_def strict_sorted_iff)

lemma keys_map_at [simp]: "map fst (map_at k f cs) = map fst cs"
  by (induction cs) auto

lemma length_map_at [simp]: "length (map_at k f cs) = length cs"
  by (induction cs) auto

lemma set_keys_map_assign:
  "set (map fst (map_assign k v cs)) = insert k (set (map fst cs))"
proof (induction cs)
  case Nil
  show ?case by simp
next
  case (Cons a cs)
  obtain k' v' where "a = (k', v')" by (cases a)
  with Cons show ?case by (simp add: insert_commute)
qed

lemma ascending_map_assign: "ascending cs \<Longrightarrow> ascending (map_assign k v cs)"
proof (induction cs)
  case Nil
  then show ?case by (simp add: ascending_def)
next
  case (Cons a cs)
  obtain k' v' where a: "a = (k', v')" by (cases a)
  from Cons.prems have rest: "ascending cs" and low: "\<forall>x \<in> set (map fst cs). k' < x"
    by (auto simp: ascending_def a)
  show ?case
  proof (cases "k < k'")
    case True
    with Cons.prems low show ?thesis by (auto simp: ascending_def a)
  next
    case False
    show ?thesis
    proof (cases "k = k'")
      case True
      with Cons.prems show ?thesis by (simp add: ascending_def a)
    next
      case neq: False
      with False have "k' < k" by simp
      with low have "\<forall>x \<in> set (map fst (map_assign k v cs)). k' < x"
        by (simp only: set_keys_map_assign) simp
      with Cons.IH [OF rest] False neq show ?thesis
        by (simp add: ascending_def a)
    qed
  qed
qed

lemma length_map_assign:
  "map_of cs k = None \<Longrightarrow> length (map_assign k v cs) = Suc (length cs)"
  by (induction cs) (auto split: if_splits)

lemma ascending_ProcessPacket:
  "ascending (m_clients s) \<Longrightarrow> ascending (m_clients (ProcessPacket h now addr packet s))"
  using ascending_map_assign
  by (auto simp: ProcessPacket_def Let_def emit_def ascending_def split: option.splits)

lemma ascending_ProcessEvents:
  "ascending (m_clients s) \<Longrightarrow> ascending (m_clients (ProcessEvents h s))"
  by (simp add: ProcessEvents_def Let_def emit_def ascending_def case_prod_beta comp_def)

lemma keys_refreshed [simp]: "map fst (refreshed h r cs) = map fst cs"
  by (simp add: refreshed_def case_prod_beta comp_def)

lemma ascending_live: "ascending cs \<Longrightarrow> ascending (live now cs)"
  by (induction cs) (auto simp: ascending_def live_def)

lemma ascending_RefreshClients:
  "ascending (m_clients s) \<Longrightarrow> ascending (m_clients (RefreshClients h now s))"
  using ascending_live [of "m_clients s" now]
  by (simp add: m_clients_RefreshClients ascending_def)

lemma ascending_ExecuteNextAction:
  "ascending (m_clients s) \<Longrightarrow> ascending (m_clients (snd (ExecuteNextAction h s)))"
  by (auto simp: ExecuteNextAction_def Let_def emit_def ascending_def case_prod_beta
        split: option.splits dest: next_action_Some)

lemma count_ProcessPacket:
  "int (length (m_clients s)) \<le> sint (m_iMaxClients s) \<Longrightarrow>
   int (length (m_clients (ProcessPacket h now addr packet s))) \<le> sint (m_iMaxClients s)"
proof -
  assume le: "int (length (m_clients s)) \<le> sint (m_iMaxClients s)"
  then have "0 \<le> sint (m_iMaxClients s)" by linarith
  then have "unat (m_iMaxClients s) = nat (sint (m_iMaxClients s))" by (rule unat_of_sint)
  with le show ?thesis
    by (auto simp: ProcessPacket_def Let_def emit_def length_map_assign split: option.splits)
qed

subsection \<open>Routing, and the history of a pass\<close>

lemma ProcessPacket_routed:
  assumes "IsValid packet" and "admitted addr packet s"
  shows "\<exists>c. map_of (m_clients (ProcessPacket h now addr packet s))
                (ucast (routing_token addr packet)) = Some c \<and>
             m_readyPackets c = queue_at (ucast (routing_token addr packet)) s @ [packet]"
  using map_of_ProcessPacket_routed [of packet s addr h now] assms
  by (auto simp: admitted_def queue_at_def AddPacket_def new_CEventClient_def
        split: option.splits)

lemma ProcessPacket_known_length:
  assumes "IsValid packet"
    and "map_of (m_clients s) (ucast (routing_token addr packet)) \<noteq> None"
  shows "length (m_clients (ProcessPacket h now addr packet s)) = length (m_clients s)"
  using assms by (auto simp: ProcessPacket_def Let_def emit_def)

lemma queue_at_other_key:
  "k \<noteq> ucast (routing_token addr packet) \<Longrightarrow>
   queue_at k (ProcessPacket h now addr packet s) = queue_at k s"
  by (simp add: queue_at_def ProcessPacket_other_keys)

lemma history_ProcessPacket:
  "history (ProcessPacket h now addr packet s) =
     history s @ effects s (ProcessPacket h now addr packet s)"
  by (simp add: ProcessPacket_def Let_def emit_def effects_def split: option.splits)

lemma history_routed_before:
  "history (routed_before h x s) = history s @ effects s (routed_before h x s)"
proof (cases "rx x")
  case (Datagram addr packet)
  then show ?thesis
    using history_ProcessPacket [of h "t_route x" addr packet s]
    by (simp add: routed_before_def)
qed (simp_all add: routed_before_def effects_def)

lemma flag_ProcessPacket [simp]:
  "m_bRefreshSettings (ProcessPacket h now addr packet s) = m_bRefreshSettings s"
  by (simp add: ProcessPacket_def Let_def emit_def split: option.splits)

lemma flag_routed_before [simp]:
  "m_bRefreshSettings (routed_before h x s) = m_bRefreshSettings s"
  by (cases "rx x") (simp_all add: routed_before_def)

lemma flag_ProcessEvents [simp]:
  "m_bRefreshSettings (ProcessEvents h s) = m_bRefreshSettings s"
  by (simp add: ProcessEvents_def Let_def emit_def)

lemma m_clients_ProcessEvents:
  "m_clients (ProcessEvents h s) = map (\<lambda>(k, c). (k, ProcessEvents_client h c)) (m_clients s)"
  by (simp add: ProcessEvents_def Let_def emit_def)

lemma history_ProcessEvents:
  "history (ProcessEvents h s) =
     history s @ [Enter] @ map (\<lambda>(k, c). ProcessEvents_call k) (m_clients s) @ [Leave]"
  by (simp add: ProcessEvents_def Let_def emit_def)

lemma history_RefreshClients_full:
  "history (RefreshClients h now s) =
     history s @ [Enter] @
     snd (RefreshClients_loop h now (m_bRefreshSettings s) [] (m_clients s) []) @ [Leave]"
  by (simp add: RefreshClients_def Let_def emit_def case_prod_beta)

lemma Run_pass_completed:
  "rx x \<noteq> Exception_thrown \<Longrightarrow>
   Run_pass h x s = (True, RefreshClients h (t_sweep x) (ProcessEvents h (routed_before h x s)))"
  by (cases "rx x") (simp_all add: Run_pass_def routed_before_def)

lemma effects_Run_pass:
  assumes "rx x \<noteq> Exception_thrown"
  shows "effects s (snd (Run_pass h x s)) =
           effects s (routed_before h x s) @
           [Enter] @ map (\<lambda>(k, c). ProcessEvents_call k) (m_clients (routed_before h x s)) @
           [Leave] @
           [Enter] @
           snd (RefreshClients_loop h (t_sweep x) (m_bRefreshSettings s) []
                  (m_clients (ProcessEvents h (routed_before h x s))) []) @
           [Leave]"
proof -
  have "history (snd (Run_pass h x s)) =
          history s @ effects s (routed_before h x s) @
           [Enter] @ map (\<lambda>(k, c). ProcessEvents_call k) (m_clients (routed_before h x s)) @
           [Leave] @
           [Enter] @
           snd (RefreshClients_loop h (t_sweep x) (m_bRefreshSettings s) []
                  (m_clients (ProcessEvents h (routed_before h x s))) []) @
           [Leave]"
    using assms history_routed_before [of h x s]
    by (simp add: Run_pass_completed history_RefreshClients_full history_ProcessEvents)
  then show ?thesis by (simp add: effects_def)
qed

lemma no_call_in_sweep:
  "ProcessEvents_call k \<notin> set ev \<Longrightarrow>
   ProcessEvents_call k \<notin> set (snd (RefreshClients_loop h now refresh passed ahead ev))"
  by (induction h now refresh passed ahead ev rule: RefreshClients_loop.induct) auto

lemma no_call_in_routing:
  "ProcessEvents_call k \<notin> set (effects s (routed_before h x s))"
  by (cases "rx x")
     (auto simp: routed_before_def effects_def ProcessPacket_def Let_def emit_def
        split: option.splits)

lemma count_calls:
  "count_list (map (\<lambda>(k, c). ProcessEvents_call k) cs) (ProcessEvents_call k) =
     count_list (map fst cs) k"
  by (induction cs) auto

lemma map_of_live_dead:
  "distinct (map fst cs) \<Longrightarrow> map_of cs T = Some c \<Longrightarrow> \<not> Alive now c \<Longrightarrow>
   map_of (live now cs) T = None"
proof (induction cs)
  case Nil
  then show ?case by simp
next
  case (Cons a cs)
  obtain k v where a: "a = (k, v)" by (cases a)
  show ?case
  proof (cases "k = T")
    case True
    with Cons.prems a have "T \<notin> fst ` set cs" by auto
    then have "T \<notin> fst ` set (live now cs)" by (auto simp: live_def)
    then have "map_of (live now cs) T = None" by (simp add: map_of_eq_None_iff)
    with True Cons.prems a show ?thesis by (simp add: live_def)
  next
    case False
    with Cons a show ?thesis by (simp add: live_def)
  qed
qed

lemma ascending_routed_before:
  "ascending (m_clients s) \<Longrightarrow> ascending (m_clients (routed_before h x s))"
  by (cases "rx x") (simp_all add: routed_before_def ascending_ProcessPacket)

lemma distinct_count_one: "distinct xs \<Longrightarrow> x \<in> set xs \<Longrightarrow> count_list xs x = 1"
  by (induction xs) auto

lemma calls_once:
  assumes "ascending (m_clients s)" and "rx x \<noteq> Exception_thrown"
    and "k \<in> fst ` set (m_clients (routed_before h x s))"
  shows "count_list (effects s (snd (Run_pass h x s))) (ProcessEvents_call k) = 1"
proof -
  have "distinct (map fst (m_clients (routed_before h x s)))"
    using assms(1) by (intro ascending_distinct ascending_routed_before)
  with assms(3) have "count_list (map fst (m_clients (routed_before h x s))) k = 1"
    by (intro distinct_count_one) simp_all
  moreover have "count_list (effects s (routed_before h x s)) (ProcessEvents_call k) = 0"
    using no_call_in_routing [of k s h x] by (simp add: count_list_0_iff)
  moreover have "count_list
      (snd (RefreshClients_loop h (t_sweep x) (m_bRefreshSettings s) []
              (m_clients (ProcessEvents h (routed_before h x s))) []))
      (ProcessEvents_call k) = 0"
    using no_call_in_sweep [of k "[]"] by (simp add: count_list_0_iff)
  ultimately show ?thesis
    using assms(2) by (simp add: effects_Run_pass count_calls)
qed

section \<open>The properties\<close>

subsection \<open>Admission and routing\<close>

text \<open>
  C1. For every routing token \<open>T\<close> and valid packet, after \<^verbatim>\<open>ProcessPacket\<close> has routed
  the packet under \<open>T\<close>: if the client count is strictly less than \<^verbatim>\<open>m_iMaxClients\<close>, a
  session for \<open>T\<close> exists and its packet queue is the queue it had before (empty for a new
  session) with the packet appended; if the count equals \<^verbatim>\<open>m_iMaxClients\<close> and there is no
  session for \<open>T\<close>, the session map is unchanged and the packet is deleted. A count
  that is at most \<^verbatim>\<open>m_iMaxClients\<close> before the call is so after it.
\<close>

theorem ProcessPacket_admission:
  assumes valid: "IsValid packet"
  shows "let T = ucast (routing_token addr packet);
             s' = ProcessPacket h now addr packet s
         in (int (length (m_clients s)) < sint (m_iMaxClients s) \<longrightarrow>
               (\<exists>c. map_of (m_clients s') T = Some c \<and>
                    m_readyPackets c =
                      (case map_of (m_clients s) T of
                         None \<Rightarrow> [] | Some c0 \<Rightarrow> m_readyPackets c0) @ [packet])) \<and>
            (int (length (m_clients s)) = sint (m_iMaxClients s) \<and>
             map_of (m_clients s) T = None \<longrightarrow>
               m_clients s' = m_clients s \<and> Delete_packet packet \<in> set (effects s s')) \<and>
            (int (length (m_clients s)) \<le> sint (m_iMaxClients s) \<longrightarrow>
               int (length (m_clients s')) \<le> sint (m_iMaxClients s))"
proof -
  define T :: c_ulong where "T = ucast (routing_token addr packet)"
  define s' where "s' = ProcessPacket h now addr packet s"
  have admit: "\<exists>c. map_of (m_clients s') T = Some c \<and>
                    m_readyPackets c =
                      (case map_of (m_clients s) T of
                         None \<Rightarrow> [] | Some c0 \<Rightarrow> m_readyPackets c0) @ [packet]"
    if room: "int (length (m_clients s)) < sint (m_iMaxClients s)"
  proof -
    from room have "0 \<le> sint (m_iMaxClients s)" by linarith
    then have "unat (m_iMaxClients s) = nat (sint (m_iMaxClients s))" by (rule unat_of_sint)
    with room have "\<not> unat (m_iMaxClients s) \<le> length (m_clients s)" by linarith
    with valid show ?thesis
      by (cases "map_of (m_clients s) T")
         (simp_all add: s'_def T_def ProcessPacket_def Let_def emit_def map_of_map_at
            map_of_map_assign AddPacket_def new_CEventClient_def)
  qed
  have reject: "m_clients s' = m_clients s \<and> Delete_packet packet \<in> set (effects s s')"
    if full: "int (length (m_clients s)) = sint (m_iMaxClients s)"
      and new: "map_of (m_clients s) T = None"
  proof -
    from full have "0 \<le> sint (m_iMaxClients s)" by linarith
    then have "unat (m_iMaxClients s) = nat (sint (m_iMaxClients s))" by (rule unat_of_sint)
    with full have "unat (m_iMaxClients s) \<le> length (m_clients s)" by linarith
    with valid new show ?thesis
      by (simp add: s'_def T_def ProcessPacket_def Let_def emit_def effects_def)
  qed
  have bound: "int (length (m_clients s')) \<le> sint (m_iMaxClients s)"
    if "int (length (m_clients s)) \<le> sint (m_iMaxClients s)"
    using that unfolding s'_def by (rule count_ProcessPacket)
  from admit reject bound show ?thesis
    unfolding T_def s'_def Let_def by blast
qed

text \<open>
  A first packet with token 0 from 10.0.0.5 is admitted by a server with room for two
  clients, and is dropped by a server whose maximum is zero.
\<close>

theorem ProcessPacket_admission_witness:
  "IsValid (packet_token 0) \<and>
   int (length (m_clients (server_with 2 []))) < sint (m_iMaxClients (server_with 2 [])) \<and>
   (\<exists>c. map_of (m_clients (ProcessPacket example_host 100 addr_5 (packet_token 0)
                              (server_with 2 [])))
            (ucast (routing_token addr_5 (packet_token 0))) = Some c \<and>
        m_readyPackets c = [packet_token 0]) \<and>
   int (length (m_clients (server_with 0 []))) = sint (m_iMaxClients (server_with 0 [])) \<and>
   map_of (m_clients (server_with 0 [])) (ucast (routing_token addr_5 (packet_token 0))) = None \<and>
   m_clients (ProcessPacket example_host 100 addr_5 (packet_token 0) (server_with 0 [])) = [] \<and>
   int (length (m_clients (ProcessPacket example_host 100 addr_5 (packet_token 0)
                             (server_with 2 []))))
     \<le> sint (m_iMaxClients (server_with 2 []))"
  using ProcessPacket_admission [of "packet_token 0" addr_5 example_host 100 "server_with 2 []"]
    ProcessPacket_admission [of "packet_token 0" addr_5 example_host 100 "server_with 0 []"]
  by (simp add: packet_token_def server_with_def Let_def)

text \<open>
  C4. A packet whose client token is zero is routed under the token derived from the
  sender's address: two valid packets with token 0 from one address, the first of them
  admitted, end up one after the other in the queue of one and the same session, and the
  second creates no session. Two valid packets from one address with distinct non-zero
  tokens, both admitted, end up in the queues of two sessions with distinct keys, each
  packet in its own. \<^verbatim>\<open>ProcessPacket\<close> touches no session other than the one at the packet's
  key.
\<close>

theorem routing_token_identity:
  "(ClientToken p = 0 \<longrightarrow> routing_token addr p = ucast (ULong addr)) \<and>
   (IsValid p \<and> IsValid q \<and> ClientToken p = 0 \<and> ClientToken q = 0 \<and> admitted addr p s \<longrightarrow>
      (\<exists>c. map_of (m_clients (ProcessPacket h now' addr q (ProcessPacket h now addr p s)))
              (ucast (routing_token addr p)) = Some c \<and>
           m_readyPackets c = queue_at (ucast (routing_token addr p)) s @ [p, q]) \<and>
      length (m_clients (ProcessPacket h now' addr q (ProcessPacket h now addr p s))) =
        length (m_clients (ProcessPacket h now addr p s))) \<and>
   (IsValid p \<and> IsValid q \<and>
    ClientToken p \<noteq> 0 \<and> ClientToken q \<noteq> 0 \<and> ClientToken p \<noteq> ClientToken q \<and>
    admitted addr p s \<and> admitted addr q (ProcessPacket h now addr p s) \<longrightarrow>
      (ucast (routing_token addr p) :: c_ulong) \<noteq> ucast (routing_token addr q) \<and>
      (\<exists>c. map_of (m_clients (ProcessPacket h now' addr q (ProcessPacket h now addr p s)))
              (ucast (routing_token addr p)) = Some c \<and>
           m_readyPackets c = queue_at (ucast (routing_token addr p)) s @ [p]) \<and>
      (\<exists>c. map_of (m_clients (ProcessPacket h now' addr q (ProcessPacket h now addr p s)))
              (ucast (routing_token addr q)) = Some c \<and>
           m_readyPackets c = queue_at (ucast (routing_token addr q)) s @ [q])) \<and>
   (\<forall>k. k \<noteq> ucast (routing_token addr p) \<longrightarrow>
      map_of (m_clients (ProcessPacket h now addr p s)) k = map_of (m_clients s) k)"
proof (intro conjI impI allI)
  assume "ClientToken p = 0"
  then show "routing_token addr p = ucast (ULong addr)" by (simp add: routing_token_def)
next
  fix k :: c_ulong
  assume "k \<noteq> ucast (routing_token addr p)"
  then show "map_of (m_clients (ProcessPacket h now addr p s)) k = map_of (m_clients s) k"
    by (rule ProcessPacket_other_keys)
next
  assume a: "IsValid p \<and> IsValid q \<and> ClientToken p = 0 \<and> ClientToken q = 0 \<and> admitted addr p s"
  define T :: c_ulong where "T = ucast (routing_token addr p)"
  define s1 where "s1 = ProcessPacket h now addr p s"
  from a have same: "ucast (routing_token addr q) = T"
    by (simp add: T_def routing_token_def)
  from a obtain c1 where c1: "map_of (m_clients s1) T = Some c1"
    and q1: "m_readyPackets c1 = queue_at T s @ [p]"
    using ProcessPacket_routed [of p addr s h now] unfolding T_def s1_def by blast
  from c1 same have adm: "admitted addr q s1" by (simp add: admitted_def)
  from c1 q1 have "queue_at T s1 = queue_at T s @ [p]" by (simp add: queue_at_def)
  with a adm same
  show "\<exists>c. map_of (m_clients (ProcessPacket h now' addr q (ProcessPacket h now addr p s)))
              (ucast (routing_token addr p)) = Some c \<and>
           m_readyPackets c = queue_at (ucast (routing_token addr p)) s @ [p, q]"
    using ProcessPacket_routed [of q addr s1 h now'] unfolding T_def [symmetric] s1_def [symmetric]
    by simp
  from a c1 same
  show "length (m_clients (ProcessPacket h now' addr q (ProcessPacket h now addr p s))) =
        length (m_clients (ProcessPacket h now addr p s))"
    using ProcessPacket_known_length [of q s1 addr h now'] unfolding s1_def [symmetric]
    by simp
next
  assume a: "IsValid p \<and> IsValid q \<and>
    ClientToken p \<noteq> 0 \<and> ClientToken q \<noteq> 0 \<and> ClientToken p \<noteq> ClientToken q \<and>
    admitted addr p s \<and> admitted addr q (ProcessPacket h now addr p s)"
  define Tp :: c_ulong where "Tp = ucast (routing_token addr p)"
  define Tq :: c_ulong where "Tq = ucast (routing_token addr q)"
  define s1 where "s1 = ProcessPacket h now addr p s"
  define s2 where "s2 = ProcessPacket h now' addr q s1"
  from a have neq: "Tp \<noteq> Tq"
    using ucast_32_64_inj [of "ClientToken p" "ClientToken q"]
    by (auto simp: Tp_def Tq_def routing_token_def)
  from a obtain c1 where c1: "map_of (m_clients s1) Tp = Some c1"
    and q1: "m_readyPackets c1 = queue_at Tp s @ [p]"
    using ProcessPacket_routed [of p addr s h now] unfolding Tp_def s1_def by blast
  from neq have "map_of (m_clients s2) Tp = map_of (m_clients s1) Tp"
    unfolding s2_def Tq_def by (intro ProcessPacket_other_keys)
  with c1 q1 have first: "\<exists>c. map_of (m_clients s2) Tp = Some c \<and>
      m_readyPackets c = queue_at Tp s @ [p]" by simp
  from a obtain c2 where c2: "map_of (m_clients s2) Tq = Some c2"
    and q2: "m_readyPackets c2 = queue_at Tq s1 @ [q]"
    using ProcessPacket_routed [of q addr s1 h now'] unfolding Tq_def s1_def s2_def by blast
  from neq have "queue_at Tq s1 = queue_at Tq s"
    unfolding s1_def Tp_def by (intro queue_at_other_key) simp
  with c2 q2 have second: "\<exists>c. map_of (m_clients s2) Tq = Some c \<and>
      m_readyPackets c = queue_at Tq s @ [q]" by simp
  from neq show "(ucast (routing_token addr p) :: c_ulong) \<noteq> ucast (routing_token addr q)"
    by (simp add: Tp_def Tq_def)
  from first show "\<exists>c. map_of (m_clients (ProcessPacket h now' addr q (ProcessPacket h now addr p s)))
              (ucast (routing_token addr p)) = Some c \<and>
           m_readyPackets c = queue_at (ucast (routing_token addr p)) s @ [p]"
    by (simp add: s2_def s1_def Tp_def)
  from second show "\<exists>c. map_of (m_clients (ProcessPacket h now' addr q (ProcessPacket h now addr p s)))
              (ucast (routing_token addr q)) = Some c \<and>
           m_readyPackets c = queue_at (ucast (routing_token addr q)) s @ [q]"
    by (simp add: s2_def s1_def Tq_def)
qed

theorem routing_token_identity_witness:
  "IsValid (packet_token 0) \<and> IsValid (packet_more 0) \<and>
   ClientToken (packet_token 0) = 0 \<and> ClientToken (packet_more 0) = 0 \<and>
   admitted addr_5 (packet_token 0) (server_with 2 []) \<and>
   (\<exists>c. map_of (m_clients (ProcessPacket example_host 101 addr_5 (packet_more 0)
                              (ProcessPacket example_host 100 addr_5 (packet_token 0)
                                 (server_with 2 []))))
            (ucast (routing_token addr_5 (packet_token 0))) = Some c \<and>
        m_readyPackets c =
          queue_at (ucast (routing_token addr_5 (packet_token 0))) (server_with 2 []) @
          [packet_token 0, packet_more 0]) \<and>
   IsValid (packet_token 7) \<and> IsValid (packet_more 8) \<and>
   ClientToken (packet_token 7) \<noteq> 0 \<and> ClientToken (packet_more 8) \<noteq> 0 \<and>
   ClientToken (packet_token 7) \<noteq> ClientToken (packet_more 8) \<and>
   admitted addr_5 (packet_token 7) (server_with 2 []) \<and>
   admitted addr_5 (packet_more 8)
     (ProcessPacket example_host 100 addr_5 (packet_token 7) (server_with 2 [])) \<and>
   (ucast (routing_token addr_5 (packet_token 7)) :: c_ulong) \<noteq>
     ucast (routing_token addr_5 (packet_more 8)) \<and>
   (\<exists>c. map_of (m_clients (ProcessPacket example_host 101 addr_5 (packet_more 8)
                              (ProcessPacket example_host 100 addr_5 (packet_token 7)
                                 (server_with 2 []))))
            (ucast (routing_token addr_5 (packet_more 8))) = Some c \<and>
        m_readyPackets c =
          queue_at (ucast (routing_token addr_5 (packet_more 8))) (server_with 2 []) @
          [packet_more 8])"
proof -
  have zero: "IsValid (packet_token 0) \<and> IsValid (packet_more 0) \<and>
      ClientToken (packet_token 0) = 0 \<and> ClientToken (packet_more 0) = 0 \<and>
      admitted addr_5 (packet_token 0) (server_with 2 [])"
    by (simp add: packet_token_def packet_more_def admitted_def server_with_def)
  have tokens: "IsValid (packet_token 7) \<and> IsValid (packet_more 8) \<and>
      ClientToken (packet_token 7) \<noteq> 0 \<and> ClientToken (packet_more 8) \<noteq> 0 \<and>
      ClientToken (packet_token 7) \<noteq> ClientToken (packet_more 8) \<and>
      admitted addr_5 (packet_token 7) (server_with 2 []) \<and>
      admitted addr_5 (packet_more 8)
        (ProcessPacket example_host 100 addr_5 (packet_token 7) (server_with 2 []))"
    by (simp add: packet_token_def packet_more_def admitted_def server_with_def
          ProcessPacket_def Let_def emit_def routing_token_def)
  note same = routing_token_identity
      [where p = "packet_token 0" and q = "packet_more 0" and addr = addr_5
         and s = "server_with 2 []" and h = example_host and now = 100 and now' = 101,
       THEN conjunct2, THEN conjunct1, rule_format, OF zero]
  note apart = routing_token_identity
      [where p = "packet_token 7" and q = "packet_more 8" and addr = addr_5
         and s = "server_with 2 []" and h = example_host and now = 100 and now' = 101,
       THEN conjunct2, THEN conjunct2, THEN conjunct1, rule_format, OF tokens]
  from zero tokens same apart show ?thesis by blast
qed

text \<open>
  C5. A packet that is not valid leaves the session map as it is, whoever sent it: no
  session is created and no queue is appended to. The packet is logged and deleted.
\<close>

theorem ProcessPacket_invalid:
  assumes "\<not> IsValid packet"
  shows "m_clients (ProcessPacket h now addr packet s) = m_clients s \<and>
         effects s (ProcessPacket h now addr packet s) =
           [Log LOGDEBUG ''ES: Received invalid packet'', Delete_packet packet]"
  using assms by (simp add: ProcessPacket_def emit_def effects_def)

theorem ProcessPacket_invalid_witness:
  "\<not> IsValid packet_invalid \<and>
   m_clients (ProcessPacket example_host 100 addr_5 packet_invalid (server_with 2 [])) = []"
  using ProcessPacket_invalid [of packet_invalid example_host 100 addr_5 "server_with 2 []"]
  by (simp add: packet_invalid_def server_with_def)

subsection \<open>Dispatch\<close>

text \<open>
  C2. In every call of \<^verbatim>\<open>ExecuteNextAction\<close> no call into the host (builtin execution,
  action sound, button action) happens while \<^verbatim>\<open>m_critSection\<close> is held; when a pending
  action is found, the call enters the lock, leaves it, and only then executes the action.
\<close>

theorem ExecuteNextAction_unlocked:
  "external_unlocked False (effects s (snd (ExecuteNextAction h s))) \<and>
   (\<forall>a cs. next_action (m_clients s) = Some (a, cs) \<longrightarrow>
      effects s (snd (ExecuteNextAction h s)) = [Enter, Leave] @ snd (execute_action h a))"
  by (auto simp: effects_ExecuteNextAction external_unlocked_execute split: option.splits)

theorem ExecuteNextAction_unlocked_witness:
  "next_action (m_clients queued_example) =
     Some (action_named ''Reboot'' AT_EXEC_BUILTIN,
           [(1, session 0 []), (2, session 0 [action_named ''Up'' AT_BUTTON])]) \<and>
   effects queued_example (snd (ExecuteNextAction example_host queued_example)) =
     [Enter, Leave, Builtins_Execute ''Reboot''] \<and>
   external_unlocked False
     (effects queued_example (snd (ExecuteNextAction example_host queued_example)))"
  using ExecuteNextAction_unlocked [of queued_example example_host]
  by (simp add: queued_example_def server_with_def session_def action_named_def
        GetNextAction_def execute_action_def)

text \<open>
  C3. \<^verbatim>\<open>ExecuteNextAction\<close> executes at most one action per call. Where an action is
  pending, the first one is taken off its queue, whatever the executor answers, and the
  call returns the executor's answer: whether \<^verbatim>\<open>CBuiltins::Execute\<close> returned 0 for a
  builtin command, the result of \<^verbatim>\<open>OnAction\<close> for a button. Where no session has a pending
  action, the call returns false and changes no member of the server.
\<close>

theorem ExecuteNextAction_dispatch:
  "(pending (m_clients s) = [] \<longrightarrow>
      ExecuteNextAction h s = (False, emit [Enter, Leave] s)) \<and>
   (\<forall>a rest. pending (m_clients s) = a # rest \<longrightarrow>
      (actionType a = AT_EXEC_BUILTIN \<longrightarrow>
         fst (ExecuteNextAction h s) = (builtin_Execute h (actionName a) = 0)) \<and>
      (actionType a = AT_BUTTON \<longrightarrow>
         fst (ExecuteNextAction h s) =
           app_OnAction h (TranslateString h (actionName a)) (actionName a)) \<and>
      pending (m_clients (snd (ExecuteNextAction h s))) = rest \<and>
      map fst (m_clients (snd (ExecuteNextAction h s))) = map fst (m_clients s)) \<and>
   length (filter is_execution (effects s (snd (ExecuteNextAction h s)))) \<le> 1"
proof (intro conjI allI impI)
  assume "pending (m_clients s) = []"
  then have "next_action (m_clients s) = None" by (simp add: next_action_None)
  then show "ExecuteNextAction h s = (False, emit [Enter, Leave] s)"
    by (simp add: ExecuteNextAction_def Let_def emit_def)
next
  show "length (filter is_execution (effects s (snd (ExecuteNextAction h s)))) \<le> 1"
    using execute_action_executions
    by (simp add: effects_ExecuteNextAction split: option.splits)
next
  fix a rest
  assume p: "pending (m_clients s) = a # rest"
  then obtain cs' where n: "next_action (m_clients s) = Some (a, cs')"
    and r: "pending cs' = rest"
    using next_action_pending by blast
  have res: "ExecuteNextAction h s =
      (fst (execute_action h a),
       emit (snd (execute_action h a)) (emit [Leave] ((emit [Enter] s)\<lparr>m_clients := cs'\<rparr>)))"
    using n by (simp add: ExecuteNextAction_def Let_def emit_def split: prod.splits)
  show "pending (m_clients (snd (ExecuteNextAction h s))) = rest"
    using r by (simp add: res emit_def)
  show "map fst (m_clients (snd (ExecuteNextAction h s))) = map fst (m_clients s)"
    using next_action_Some [OF n] by (simp add: res emit_def)
  { assume "actionType a = AT_EXEC_BUILTIN"
    then show "fst (ExecuteNextAction h s) = (builtin_Execute h (actionName a) = 0)"
      by (simp add: res execute_action_def) }
  { assume "actionType a = AT_BUTTON"
    then show "fst (ExecuteNextAction h s) =
           app_OnAction h (TranslateString h (actionName a)) (actionName a)"
      by (simp add: res execute_action_def Let_def) }
qed

text \<open>
  Two actions queued for one session: the host refuses the builtin command, the call
  returns false, and only the second action is left.
\<close>

theorem ExecuteNextAction_dispatch_witness:
  "pending (m_clients queued_example) =
     [action_named ''Reboot'' AT_EXEC_BUILTIN, action_named ''Up'' AT_BUTTON] \<and>
   actionType (action_named ''Reboot'' AT_EXEC_BUILTIN) = AT_EXEC_BUILTIN \<and>
   fst (ExecuteNextAction example_host queued_example) = False \<and>
   pending (m_clients (snd (ExecuteNextAction example_host queued_example))) =
     [action_named ''Up'' AT_BUTTON] \<and>
   pending (m_clients (server_with 20 [(1, session 0 [])])) = [] \<and>
   ExecuteNextAction example_host (server_with 20 [(1, session 0 [])]) =
     (False, emit [Enter, Leave] (server_with 20 [(1, session 0 [])]))"
  using ExecuteNextAction_dispatch [of queued_example example_host]
    ExecuteNextAction_dispatch [of "server_with 20 [(1, session 0 [])]" example_host]
  by (simp add: queued_example_def server_with_def session_def action_named_def pending_def
        example_host_def)

text \<open>
  C10. Where the pending action found by \<^verbatim>\<open>ExecuteNextAction\<close> is neither a builtin
  command nor a button, it is still taken off its queue, the call returns true, and
  nothing is executed: the call only enters and leaves the lock.
\<close>

theorem ExecuteNextAction_other_kind:
  assumes "pending (m_clients s) = a # rest" and "actionType a = AT_OTHER n"
  shows "fst (ExecuteNextAction h s) = True \<and>
         pending (m_clients (snd (ExecuteNextAction h s))) = rest \<and>
         effects s (snd (ExecuteNextAction h s)) = [Enter, Leave]"
proof -
  from assms(1) obtain cs' where n: "next_action (m_clients s) = Some (a, cs')"
    and r: "pending cs' = rest"
    using next_action_pending by blast
  from assms(2) have e: "execute_action h a = (True, [])"
    by (simp add: execute_action_def)
  from n e r show ?thesis
    by (simp add: ExecuteNextAction_def Let_def emit_def effects_def)
qed

theorem ExecuteNextAction_other_kind_witness:
  "pending (m_clients other_kind_example) =
     action_named ''pointer'' (AT_OTHER 3) # [action_named ''Up'' AT_BUTTON] \<and>
   actionType (action_named ''pointer'' (AT_OTHER 3)) = AT_OTHER 3 \<and>
   fst (ExecuteNextAction example_host other_kind_example) = True \<and>
   pending (m_clients (snd (ExecuteNextAction example_host other_kind_example))) =
     [action_named ''Up'' AT_BUTTON] \<and>
   effects other_kind_example (snd (ExecuteNextAction example_host other_kind_example)) =
     [Enter, Leave]"
  using ExecuteNextAction_other_kind [of other_kind_example
      "action_named ''pointer'' (AT_OTHER 3)" "[action_named ''Up'' AT_BUTTON]" 3 example_host]
  by (simp add: other_kind_example_def server_with_def session_def action_named_def pending_def)

subsection \<open>The sweep\<close>

text \<open>
  C6, as the source has it. A sweep at clock reading \<open>now\<close> over a map with distinct keys
  removes and deletes every dead session, in key order, and keeps every live one (with the
  configuration pushed into it if a refresh was requested). It does not visit a surviving
  session exactly once: the scan starts again at the first entry after every eviction, so
  with a refresh requested \<^verbatim>\<open>RefreshSettings\<close> is called on a surviving session once, plus
  once for every dead session that follows it in key order.
\<close>

theorem RefreshClients_sweep:
  assumes "distinct (map fst (m_clients s))"
  shows "m_clients (RefreshClients h now s) =
           refreshed h (m_bRefreshSettings s) (live now (m_clients s)) \<and>
         deleted (effects s (RefreshClients h now s)) = dead_keys now (m_clients s) \<and>
         (m_bRefreshSettings s \<longrightarrow>
            (\<forall>k \<in> fst ` set (live now (m_clients s)).
               count_list (effects s (RefreshClients h now s)) (RefreshSettings_call k) =
                 1 + evicted_after now k (m_clients s)))"
proof (intro conjI impI ballI)
  show "m_clients (RefreshClients h now s) =
           refreshed h (m_bRefreshSettings s) (live now (m_clients s))"
    by (rule m_clients_RefreshClients)
  show "deleted (effects s (RefreshClients h now s)) = dead_keys now (m_clients s)"
    using RefreshClients_loop_deleted [of "[]" now h "m_bRefreshSettings s" "m_clients s" "[]"]
    by (simp add: history_RefreshClients deleted_def)
next
  fix k
  assume flag: "m_bRefreshSettings s" and k: "k \<in> fst ` set (live now (m_clients s))"
  then have "k \<in> fst ` set (m_clients s)" by (auto simp: live_def)
  with RefreshClients_loop_calls [of "m_bRefreshSettings s" "[]" "m_clients s" now k h "[]"]
    flag k assms
  show "count_list (effects s (RefreshClients h now s)) (RefreshSettings_call k) =
                 1 + evicted_after now k (m_clients s)"
    by (simp add: history_RefreshClients)
qed

theorem RefreshClients_sweep_witness:
  "distinct (map fst (m_clients sweep_example)) \<and>
   m_bRefreshSettings sweep_example \<and>
   1 \<in> fst ` set (live 100 (m_clients sweep_example)) \<and>
   map fst (m_clients (RefreshClients example_host 100 sweep_example)) = [1] \<and>
   deleted (effects sweep_example (RefreshClients example_host 100 sweep_example)) = [2] \<and>
   count_list (effects sweep_example (RefreshClients example_host 100 sweep_example))
     (RefreshSettings_call 1) = 1 + evicted_after 100 1 (m_clients sweep_example)"
  using RefreshClients_sweep [of sweep_example example_host 100]
  by (simp add: sweep_example_def server_with_def session_def Alive_def RefreshSettings_def
        refreshed_def live_def dead_keys_def)

text \<open>
  Session 1 is alive, session 2 has timed out, and a refresh is requested: session 1
  survives the sweep and has \<^verbatim>\<open>RefreshSettings\<close> called on it twice.
\<close>

theorem RefreshClients_revisits_counterexample:
  "map fst (m_clients (RefreshClients example_host 100 sweep_example)) = [1] \<and>
   count_list (effects sweep_example (RefreshClients example_host 100 sweep_example))
     (RefreshSettings_call 1) = 2"
  by (simp add: history_RefreshClients m_clients_RefreshClients sweep_example_def server_with_def
        session_def Alive_def RefreshSettings_def refreshed_def live_def)

subsection \<open>The receive loop\<close>

text \<open>
  C7, as the source has it. A pass of the receive loop that is not cut short by an
  exception runs the conversion phase and then the sweep, once each and in that order,
  whether or not a datagram arrived: its history is that of the routing, then one
  \<^verbatim>\<open>ProcessEvents()\<close> call on every session (exactly one per session), then the sweep. A
  valid packet that is admitted in a pass is therefore converted in that pass before the
  sweep runs. Its session survives the sweep of that pass exactly if less than the
  session's liveness window has passed between the routing and the sweep; where it
  survives, its packet queue is drained and the actions the packet decodes to are the
  last ones queued.
\<close>

theorem Run_pass_order:
  assumes asc: "ascending (m_clients s)" and completed: "rx x \<noteq> Exception_thrown"
  shows
    "fst (Run_pass h x s) \<and>
     effects s (snd (Run_pass h x s)) =
       effects s (routed_before h x s) @
       [Enter] @ map (\<lambda>(k, c). ProcessEvents_call k) (m_clients (routed_before h x s)) @
       [Leave] @
       [Enter] @
       snd (RefreshClients_loop h (t_sweep x) (m_bRefreshSettings s) []
              (m_clients (ProcessEvents h (routed_before h x s))) []) @
       [Leave] \<and>
     (\<forall>k \<in> fst ` set (m_clients (routed_before h x s)).
        count_list (effects s (snd (Run_pass h x s))) (ProcessEvents_call k) = 1) \<and>
     m_clients (snd (Run_pass h x s)) =
       refreshed h (m_bRefreshSettings s)
         (live (t_sweep x) (m_clients (ProcessEvents h (routed_before h x s)))) \<and>
     (\<forall>addr packet.
        rx x = Datagram addr packet \<and> IsValid packet \<and> admitted addr packet s \<longrightarrow>
        (\<exists>c acts. map_of (m_clients (ProcessEvents h (routed_before h x s)))
                     (ucast (routing_token addr packet)) = Some c \<and>
                   m_readyPackets c = [] \<and> m_actionQueue c = acts @ decode h packet) \<and>
        ((map_of (m_clients (snd (Run_pass h x s))) (ucast (routing_token addr packet)) \<noteq> None) =
         (t_sweep x - t_route x <
            (case map_of (m_clients s) (ucast (routing_token addr packet)) of
               None \<Rightarrow> liveness_window h | Some c \<Rightarrow> m_timeout c))) \<and>
        (\<forall>c. map_of (m_clients (snd (Run_pass h x s))) (ucast (routing_token addr packet)) = Some c
           \<longrightarrow> m_readyPackets c = [] \<and> (\<exists>acts. m_actionQueue c = acts @ decode h packet)))"
proof (intro conjI ballI allI impI)
  show "fst (Run_pass h x s)" using completed by (simp add: Run_pass_completed)
  show "effects s (snd (Run_pass h x s)) =
       effects s (routed_before h x s) @
       [Enter] @ map (\<lambda>(k, c). ProcessEvents_call k) (m_clients (routed_before h x s)) @
       [Leave] @
       [Enter] @
       snd (RefreshClients_loop h (t_sweep x) (m_bRefreshSettings s) []
              (m_clients (ProcessEvents h (routed_before h x s))) []) @
       [Leave]"
    using completed by (rule effects_Run_pass)
  show "m_clients (snd (Run_pass h x s)) =
       refreshed h (m_bRefreshSettings s)
         (live (t_sweep x) (m_clients (ProcessEvents h (routed_before h x s))))"
    using completed by (simp add: Run_pass_completed m_clients_RefreshClients)
next
  fix k
  assume "k \<in> fst ` set (m_clients (routed_before h x s))"
  with asc completed
  show "count_list (effects s (snd (Run_pass h x s))) (ProcessEvents_call k) = 1"
    by (rule calls_once)
next
  fix addr packet
  assume a: "rx x = Datagram addr packet \<and> IsValid packet \<and> admitted addr packet s"
  define T :: c_ulong where "T = ucast (routing_token addr packet)"
  define c0 where "c0 = (case map_of (m_clients s) T of
                           None \<Rightarrow> new_CEventClient h (t_route x) addr | Some c \<Rightarrow> c)"
  define c2 where "c2 = ProcessEvents_client h (AddPacket (t_route x) packet c0)"
  define s2 where "s2 = ProcessEvents h (routed_before h x s)"
  define window where "window = (case map_of (m_clients s) T of
                                   None \<Rightarrow> liveness_window h | Some c \<Rightarrow> m_timeout c)"
  have rb: "routed_before h x s = ProcessPacket h (t_route x) addr packet s"
    using a by (simp add: routed_before_def)
  have m2: "map_of (m_clients s2) T = Some c2"
    using a map_of_ProcessPacket_routed [of packet s addr h "t_route x"]
    by (simp add: s2_def rb map_of_ProcessEvents T_def c2_def c0_def admitted_def)
  have q: "m_readyPackets c2 = [] \<and>
           m_actionQueue c2 =
             (m_actionQueue c0 @ concat (map (decode h) (m_readyPackets c0))) @ decode h packet"
    by (simp add: c2_def ProcessEvents_client_def AddPacket_def)
  have alive: "Alive (t_sweep x) c2 = (t_sweep x - t_route x < window)"
    by (simp add: Alive_def c2_def ProcessEvents_client_def AddPacket_def window_def c0_def
          new_CEventClient_def split: option.splits)
  have final: "m_clients (snd (Run_pass h x s)) =
      refreshed h (m_bRefreshSettings s) (live (t_sweep x) (m_clients s2))"
    using completed by (simp add: Run_pass_completed m_clients_RefreshClients s2_def)
  have dist: "distinct (map fst (m_clients s2))"
    unfolding s2_def
    by (intro ascending_distinct ascending_ProcessEvents ascending_routed_before asc)
  have kept: "map_of (m_clients (snd (Run_pass h x s))) T =
      (if t_sweep x - t_route x < window
       then Some (if m_bRefreshSettings s then RefreshSettings h c2 else c2) else None)"
  proof (cases "Alive (t_sweep x) c2")
    case True
    with m2 have "map_of (live (t_sweep x) (m_clients s2)) T = Some c2" by (rule map_of_live)
    with True alive show ?thesis by (simp add: final map_of_refreshed)
  next
    case False
    with dist m2 have "map_of (live (t_sweep x) (m_clients s2)) T = None"
      by (rule map_of_live_dead)
    with False alive show ?thesis by (simp add: final map_of_refreshed)
  qed
  show "\<exists>c acts. map_of (m_clients (ProcessEvents h (routed_before h x s)))
                     (ucast (routing_token addr packet)) = Some c \<and>
                   m_readyPackets c = [] \<and> m_actionQueue c = acts @ decode h packet"
    using m2 q unfolding s2_def T_def by blast
  show "(map_of (m_clients (snd (Run_pass h x s))) (ucast (routing_token addr packet)) \<noteq> None) =
         (t_sweep x - t_route x <
            (case map_of (m_clients s) (ucast (routing_token addr packet)) of
               None \<Rightarrow> liveness_window h | Some c \<Rightarrow> m_timeout c))"
    using kept unfolding T_def window_def by simp
  { fix c
    assume "map_of (m_clients (snd (Run_pass h x s))) (ucast (routing_token addr packet)) = Some c"
    with kept have "c = (if m_bRefreshSettings s then RefreshSettings h c2 else c2)"
      unfolding T_def by (simp split: if_splits)
    with q show "m_readyPackets c = []" by (simp add: RefreshSettings_def)
    from \<open>c = _\<close> q show "\<exists>acts. m_actionQueue c = acts @ decode h packet"
      by (auto simp: RefreshSettings_def) }
qed

theorem Run_pass_order_witness:
  "ascending (m_clients one_session) \<and> rx datagram_pass \<noteq> Exception_thrown \<and>
   rx datagram_pass = Datagram addr_5 (packet_token 0) \<and> IsValid (packet_token 0) \<and>
   admitted addr_5 (packet_token 0) one_session \<and>
   t_sweep datagram_pass - t_route datagram_pass <
     (case map_of (m_clients one_session) (ucast (routing_token addr_5 (packet_token 0))) of
        None \<Rightarrow> liveness_window example_host | Some c \<Rightarrow> m_timeout c) \<and>
   fst (Run_pass example_host datagram_pass one_session) \<and>
   map_of (m_clients (snd (Run_pass example_host datagram_pass one_session)))
     (ucast (routing_token addr_5 (packet_token 0))) \<noteq> None"
proof -
  have asc: "ascending (m_clients one_session)"
    by (simp add: ascending_def one_session_def server_with_def)
  have completed: "rx datagram_pass \<noteq> Exception_thrown"
    by (simp add: datagram_pass_def)
  have routed: "rx datagram_pass = Datagram addr_5 (packet_token 0) \<and> IsValid (packet_token 0) \<and>
      admitted addr_5 (packet_token 0) one_session"
    by (simp add: datagram_pass_def packet_token_def admitted_def one_session_def server_with_def)
  have in_time: "t_sweep datagram_pass - t_route datagram_pass <
     (case map_of (m_clients one_session) (ucast (routing_token addr_5 (packet_token 0))) of
        None \<Rightarrow> liveness_window example_host | Some c \<Rightarrow> m_timeout c)"
    by (simp add: datagram_pass_def one_session_def server_with_def routing_token_def
          packet_token_def addr_5_def ULong_def example_host_def)
  note inst = Run_pass_order [OF asc completed, where h = example_host]
  from inst have started: "fst (Run_pass example_host datagram_pass one_session)"
    by (rule conjunct1)
  note survival = inst [THEN conjunct2, THEN conjunct2, THEN conjunct2, THEN conjunct2,
      rule_format, OF routed, THEN conjunct2, THEN conjunct1]
  from survival in_time
  have "map_of (m_clients (snd (Run_pass example_host datagram_pass one_session)))
     (ucast (routing_token addr_5 (packet_token 0))) \<noteq> None"
    by blast
  with asc completed routed in_time started show ?thesis by blast
qed

text \<open>
  A valid packet from a new address is admitted at clock reading 100 and the sweep of the
  same pass runs at 160, with a liveness window of 60: the session made for the packet is
  evicted in the pass in which the packet was received.
\<close>

theorem Run_pass_evicts_counterexample:
  "IsValid (packet_token 0) \<and>
   admitted addr_5 (packet_token 0) (server_with 2 []) \<and>
   fst (Run_pass example_host late_pass (server_with 2 [])) \<and>
   map fst (m_clients (routed_before example_host late_pass (server_with 2 []))) = [0x0A000005] \<and>
   m_clients (snd (Run_pass example_host late_pass (server_with 2 []))) = []"
  by (simp add: Run_pass_completed m_clients_RefreshClients
        m_clients_ProcessEvents routed_before_def late_pass_def admitted_def
        ProcessPacket_def Let_def emit_def routing_token_def ULong_def addr_5_def
        packet_token_def server_with_def example_host_def new_CEventClient_def AddPacket_def
        ProcessEvents_client_def Alive_def live_def refreshed_def)

subsection \<open>Start and end of a run\<close>

text \<open>
  C9. A configured maximum of clients below 0 is replaced by 20, with an error logged, and
  \<^verbatim>\<open>StartServer\<close> goes on to create the thread (where the server is not running yet and
  the assertion on the port does not fire). A port range outside 1 to 100 is replaced by
  10, with a message logged, and the run goes on to bind with range 10: the loop is reached
  exactly if that bind succeeds.
\<close>

theorem config_self_correction:
  "(\<not> m_bRunning s \<and>
    (ndebug \<or> (1 \<le> sint (ESPORT settings) \<and> sint (ESPORT settings) \<le> 65535)) \<and>
    sint (ESMAXCLIENTS settings) < 0 \<longrightarrow>
      (\<exists>s'. StartServer ndebug settings s = Inr s' \<and> m_iMaxClients s' = 20 \<and>
            effects s s' =
              [Enter, Log LOGERROR ''ES: Invalid maximum number of clients specified %d'',
               Thread_Create, Leave])) \<and>
   (CreateUDPSocket env \<noteq> None \<and> malloc env \<noteq> None \<and>
    (sint (ESPORTRANGE settings) < 1 \<or> 100 < sint (ESPORTRANGE settings)) \<longrightarrow>
      (let (started, s') = Run_startup settings env s
       in started = Bind env (\<not> ESALLINTERFACES settings) (m_iPort s) 10 \<and>
          Log LOGERROR ''ES: Invalid port range specified %d, defaulting to 10''
            \<in> set (effects s s') \<and>
          Socket_Bind (\<not> ESALLINTERFACES settings) (m_iPort s) 10 \<in> set (effects s s')))"
proof (intro conjI impI)
  assume "\<not> m_bRunning s \<and>
    (ndebug \<or> (1 \<le> sint (ESPORT settings) \<and> sint (ESPORT settings) \<le> 65535)) \<and>
    sint (ESMAXCLIENTS settings) < 0"
  then show "\<exists>s'. StartServer ndebug settings s = Inr s' \<and> m_iMaxClients s' = 20 \<and>
            effects s s' =
              [Enter, Log LOGERROR ''ES: Invalid maximum number of clients specified %d'',
               Thread_Create, Leave]"
    by (auto simp: StartServer_def Let_def emit_def effects_def)
next
  assume "CreateUDPSocket env \<noteq> None \<and> malloc env \<noteq> None \<and>
    (sint (ESPORTRANGE settings) < 1 \<or> 100 < sint (ESPORTRANGE settings))"
  then show "let (started, s') = Run_startup settings env s
       in started = Bind env (\<not> ESALLINTERFACES settings) (m_iPort s) 10 \<and>
          Log LOGERROR ''ES: Invalid port range specified %d, defaulting to 10''
            \<in> set (effects s s') \<and>
          Socket_Bind (\<not> ESALLINTERFACES settings) (m_iPort s) 10 \<in> set (effects s s')"
    by (auto simp: Run_startup_def Let_def emit_def effects_def Cleanup_eq)
qed

theorem config_self_correction_witness:
  "\<not> m_bRunning constructed \<and> sint (ESMAXCLIENTS example_settings) < 0 \<and>
   1 \<le> sint (ESPORT example_settings) \<and> sint (ESPORT example_settings) \<le> 65535 \<and>
   (\<exists>s'. StartServer False example_settings constructed = Inr s' \<and> m_iMaxClients s' = 20) \<and>
   CreateUDPSocket bind_accepted \<noteq> None \<and> malloc bind_accepted \<noteq> None \<and>
   sint (ESPORTRANGE example_settings) < 1 \<and>
   fst (Run_startup example_settings bind_accepted constructed) \<and>
   Socket_Bind False 9777 10
     \<in> set (effects constructed (snd (Run_startup example_settings bind_accepted constructed)))"
  using config_self_correction [of constructed False example_settings bind_accepted]
  by (auto simp: constructed_def example_settings_def bind_accepted_def case_prod_beta)

text \<open>
  The exit after the loop does release both resources: a run that reaches the loop and
  returns has called \<^verbatim>\<open>Cleanup\<close> last.
\<close>

lemma Run_loop_exit_releases:
  assumes "fst (Run_startup settings env s)" and "Run h settings env passes s = Some s'"
  shows "m_pSocket s' = None \<and> m_pPacketBuffer s' = None \<and> m_clients s' = []"
  using assms
  by (auto simp: Run_def Cleanup_eq split: prod.splits option.splits bool.splits)

text \<open>
  C8, at the two early returns that come after an allocation. A run whose bind is refused
  returns at line 175 with the socket and the packet buffer still allocated, the socket
  not closed and the buffer not freed; a run whose \<^verbatim>\<open>malloc\<close> fails returns at line 161
  with the socket still allocated and not closed.
\<close>

theorem Run_early_return_keeps_resources:
  "map_option (\<lambda>s'. (m_pSocket s', m_pPacketBuffer s',
                     filter (\<lambda>e. e = Socket_Close \<or> e = Buffer_free) (history s')))
     (Run example_host example_settings bind_refused [] constructed) =
   Some (Some UDPSocket, Some Buffer, []) \<and>
   map_option (\<lambda>s'. (m_pSocket s', m_pPacketBuffer s',
                     filter (\<lambda>e. e = Socket_Close \<or> e = Buffer_free) (history s')))
     (Run example_host example_settings malloc_fails [] constructed) =
   Some (Some UDPSocket, None, [])"
  by (simp add: Run_def Run_startup_def Cleanup_eq Cleanup_effects_def Let_def emit_def
        constructed_def example_settings_def bind_refused_def malloc_fails_def)

end
